theory Spec2Isabelle
  imports Complex_Main
begin

section \<open>JSON-decoded values and the Python operations used on them\<close>

text \<open>
  \<^verbatim>\<open>json.load\<close> yields \<^verbatim>\<open>None\<close>, booleans, integers, floats, strings, lists and
  dictionaries.  The extractor never computes with a float, it only copies it, so floats
  are a type parameter.  A dictionary is the list of its items in insertion order; a key
  is looked up with \<open>map_of\<close>.
\<close>

datatype py_error = TypeError | AttributeError | KeyError

datatype 'f json =
    JNull
  | JBool bool
  | JInt int
  | JFloat 'f
  | JStr string
  | JArr "'f json list"
  | JObj "(string \<times> 'f json) list"

text \<open>\<^verbatim>\<open>x.get(key, default)\<close>: only a dictionary has the method.\<close>

definition py_get :: "'f json \<Rightarrow> string \<Rightarrow> 'f json \<Rightarrow> py_error + 'f json" where
  "py_get x key dflt =
     (case x of
        JObj kvs \<Rightarrow> (case map_of kvs key of Some v \<Rightarrow> Inr v | None \<Rightarrow> Inr dflt)
      | _ \<Rightarrow> Inl AttributeError)"

text \<open>Python's substring test \<^verbatim>\<open>k in s\<close> on two strings.\<close>

fun substring :: "string \<Rightarrow> string \<Rightarrow> bool" where
  "substring k [] = (k = [])"
| "substring k (c # cs) = (take (length k) (c # cs) = k \<or> substring k cs)"

text \<open>
  \<^verbatim>\<open>key in x\<close> for a string \<^verbatim>\<open>key\<close>: key membership on a dictionary, element equality on
  a list, substring on a string, \<^verbatim>\<open>TypeError\<close> on anything else.
\<close>

definition py_in :: "string \<Rightarrow> 'f json \<Rightarrow> py_error + bool" where
  "py_in key x =
     (case x of
        JObj kvs \<Rightarrow> Inr (key \<in> set (map fst kvs))
      | JArr xs \<Rightarrow> Inr (JStr key \<in> set xs)
      | JStr s \<Rightarrow> Inr (substring key s)
      | _ \<Rightarrow> Inl TypeError)"

text \<open>
  \<^verbatim>\<open>x[key]\<close> for a string \<^verbatim>\<open>key\<close>: \<^verbatim>\<open>KeyError\<close> on a dictionary without the key,
  \<^verbatim>\<open>TypeError\<close> on every other value (lists and strings want integer indices, the rest
  is not subscriptable).
\<close>

definition py_getitem :: "'f json \<Rightarrow> string \<Rightarrow> py_error + 'f json" where
  "py_getitem x key =
     (case x of
        JObj kvs \<Rightarrow> (case map_of kvs key of Some v \<Rightarrow> Inr v | None \<Rightarrow> Inl KeyError)
      | _ \<Rightarrow> Inl TypeError)"

text \<open>
  The items a \<^verbatim>\<open>for\<close> loop over \<^verbatim>\<open>x\<close> visits: the elements of a list, the keys of a
  dictionary, the one-character strings of a string; \<^verbatim>\<open>TypeError\<close> otherwise.
\<close>

definition py_iter :: "'f json \<Rightarrow> py_error + 'f json list" where
  "py_iter x =
     (case x of
        JArr xs \<Rightarrow> Inr xs
      | JObj kvs \<Rightarrow> Inr (map (\<lambda>kv. JStr (fst kv)) kvs)
      | JStr s \<Rightarrow> Inr (map (\<lambda>c. JStr [c]) s)
      | _ \<Rightarrow> Inl TypeError)"

text \<open>A termination measure that counts the characters of strings and keys too.\<close>

primrec weight :: "'f json \<Rightarrow> nat" where
  "weight JNull = 0"
| "weight (JBool b) = 0"
| "weight (JInt i) = 0"
| "weight (JFloat x) = 0"
| "weight (JStr s) = length s - 1"
| "weight (JArr xs) = Suc (sum_list (map Suc (map weight xs)))"
| "weight (JObj kvs) =
     Suc (sum_list (map (\<lambda>p. Suc (length (fst p) + snd p)) (map (map_prod id weight) kvs)))"

definition weights :: "'f json list \<Rightarrow> nat" where
  "weights xs = sum_list (map (\<lambda>x. Suc (weight x)) xs)"

lemma weights_simps [simp]:
  "weights [] = 0"
  "weights (x # xs) = Suc (weight x + weights xs)"
  by (simp_all add: weights_def)

lemma weight_map_of: "map_of kvs k = Some v \<Longrightarrow> Suc (weight v) < weight (JObj kvs)"
  by (induction kvs) (auto split: if_splits)

lemma weight_getitem: "py_getitem x k = Inr v \<Longrightarrow> Suc (weight v) < weight x"
  by (cases x) (auto simp: py_getitem_def split: option.splits dest: weight_map_of)

lemma weights_elems: "weights xs < weight (JArr xs)"
  by (induction xs) auto

lemma weights_keys:
  "weights (map (\<lambda>kv. JStr (fst kv)) kvs :: 'f json list) < weight (JObj kvs :: 'f json)"
  by (induction kvs) auto

lemma weights_chars: "weights (map (\<lambda>c. JStr [c]) s :: 'f json list) = length s"
  by (induction s) auto

lemma weights_iter: "py_iter x = Inr items \<Longrightarrow> weights items \<le> Suc (weight x)"
proof (cases x)
  case (JArr xs)
  assume "py_iter x = Inr items"
  with JArr have "items = xs" by (simp add: py_iter_def)
  then show ?thesis using JArr weights_elems [of xs] by (simp del: weight.simps)
next
  case (JObj kvs)
  assume "py_iter x = Inr items"
  with JObj have "items = map (\<lambda>kv. JStr (fst kv)) kvs" by (simp add: py_iter_def)
  then have "weights items < weight (JObj kvs)" by (simp only: weights_keys)
  then show ?thesis using JObj by (simp del: weight.simps)
next
  case (JStr s)
  assume "py_iter x = Inr items"
  with JStr have "items = map (\<lambda>c. JStr [c]) s" by (simp add: py_iter_def)
  then have "weights items = length s" by (simp add: weights_chars)
  then show ?thesis using JStr by simp
qed (simp_all add: py_iter_def)

section \<open>The metadata extractor\<close>

text \<open>
  The condition of the \<^verbatim>\<open>elif\<close>:
  \<^verbatim>\<open>"min" in item and "max" in item and "step" in item\<close>, with Python's short-circuit
  \<^verbatim>\<open>and\<close>.
\<close>

definition has_min_max_step :: "'f json \<Rightarrow> py_error + bool" where
  "has_min_max_step item =
     (case py_in ''min'' item of
        Inl e \<Rightarrow> Inl e
      | Inr False \<Rightarrow> Inr False
      | Inr True \<Rightarrow>
          (case py_in ''max'' item of
             Inl e \<Rightarrow> Inl e
           | Inr False \<Rightarrow> Inr False
           | Inr True \<Rightarrow> py_in ''step'' item))"

text \<open>
  \<^verbatim>\<open>extract_from_ui\<close> and its \<^verbatim>\<open>for\<close> loop.  \<open>for_item items info_list\<close> runs the loop
  body on the items still to visit, \<open>info_list\<close> being the list built so far;
  \<^verbatim>\<open>append\<close> and \<^verbatim>\<open>extend\<close> add at the end.  An exception leaves the call, and every
  call above it, at once.
\<close>

function extract_from_ui :: "'f json \<Rightarrow> py_error + 'f json list"
  and for_item :: "'f json list \<Rightarrow> 'f json list \<Rightarrow> py_error + 'f json list"
where
  "extract_from_ui ui_items =
     (case py_iter ui_items of
        Inl e \<Rightarrow> Inl e
      | Inr items \<Rightarrow> for_item items [])"
| "for_item [] info_list = Inr info_list"
| "for_item (item # rest) info_list =
     (case py_get item ''shortname'' (JStr '''') of
        Inl e \<Rightarrow> Inl e
      | Inr shortname \<Rightarrow>
     (case py_get item ''type'' (JStr '''') of
        Inl e \<Rightarrow> Inl e
      | Inr item_type \<Rightarrow>
     (case
        (if item_type \<in> set [JStr ''button'', JStr ''checkbox''] then
           Inr (info_list @
             [JObj [(''shortname'', shortname), (''type'', item_type), (''init'', JInt 0),
                    (''min'', JInt 0), (''max'', JInt 1), (''step'', JInt 1)]])
         else
           (case has_min_max_step item of
              Inl e \<Rightarrow> Inl e
            | Inr False \<Rightarrow> Inr info_list
            | Inr True \<Rightarrow>
           (case py_get item ''init'' (JInt 0) of
              Inl e \<Rightarrow> Inl e
            | Inr init_value \<Rightarrow>
           (case py_getitem item ''min'' of
              Inl e \<Rightarrow> Inl e
            | Inr min_value \<Rightarrow>
           (case py_getitem item ''max'' of
              Inl e \<Rightarrow> Inl e
            | Inr max_value \<Rightarrow>
           (case py_getitem item ''step'' of
              Inl e \<Rightarrow> Inl e
            | Inr step_value \<Rightarrow>
                Inr (info_list @
                  [JObj [(''shortname'', shortname), (''type'', item_type),
                         (''init'', init_value), (''min'', min_value),
                         (''max'', max_value), (''step'', step_value)]])))))))
      of
        Inl e \<Rightarrow> Inl e
      | Inr info_list1 \<Rightarrow>
     (case py_in ''items'' item of
        Inl e \<Rightarrow> Inl e
      | Inr False \<Rightarrow> for_item rest info_list1
      | Inr True \<Rightarrow>
     (case py_getitem item ''items'' of
        Inl e \<Rightarrow> Inl e
      | Inr sub \<Rightarrow>
     (case extract_from_ui sub of
        Inl e \<Rightarrow> Inl e
      | Inr more \<Rightarrow> for_item rest (info_list1 @ more)))))))"
  by pat_completeness auto
termination
proof (relation "measure (\<lambda>a. case a of
          Inl ui \<Rightarrow> weight ui + 2
        | Inr (items, info) \<Rightarrow> weights items)", goal_cases)
  case 1
  show ?case by simp
next
  case 2
  then show ?case by (auto dest: weights_iter)
next
  case (3 item rest info_list shortname item_type info_list1 b sub)
  from \<open>py_getitem item ''items'' = Inr sub\<close> have "Suc (weight sub) < weight item"
    by (rule weight_getitem)
  then show ?case by simp
next
  case 4
  then show ?case by simp
next
  case 5
  then show ?case by simp
qed

text \<open>\<^verbatim>\<open>extract_items_info\<close>: the \<^verbatim>\<open>"ui"\<close> section, when there is one.\<close>

definition extract_items_info :: "'f json \<Rightarrow> py_error + 'f json list" where
  "extract_items_info json_data =
     (case py_in ''ui'' json_data of
        Inl e \<Rightarrow> Inl e
      | Inr True \<Rightarrow>
          (case py_getitem json_data ''ui'' of
             Inl e \<Rightarrow> Inl e
           | Inr ui_section \<Rightarrow> extract_from_ui ui_section)
      | Inr False \<Rightarrow> Inr [])"

declare extract_from_ui.simps [simp del]

subsection \<open>The operations on a dictionary\<close>

lemma py_get_dict [simp]:
  "py_get (JObj kvs) k d = Inr (case map_of kvs k of Some v \<Rightarrow> v | None \<Rightarrow> d)"
  by (simp add: py_get_def split: option.splits)

lemma py_in_dict [simp]: "py_in k (JObj kvs) = Inr (map_of kvs k \<noteq> None)"
  by (simp add: py_in_def map_of_eq_None_iff)

lemma py_getitem_dict [simp]:
  "py_getitem (JObj kvs) k = (case map_of kvs k of Some v \<Rightarrow> Inr v | None \<Rightarrow> Inl KeyError)"
  by (simp add: py_getitem_def)

lemma has_min_max_step_dict [simp]:
  "has_min_max_step (JObj kvs) =
     Inr (map_of kvs ''min'' \<noteq> None \<and> map_of kvs ''max'' \<noteq> None \<and> map_of kvs ''step'' \<noteq> None)"
  by (simp add: has_min_max_step_def split: bool.splits)

section \<open>Depth-first order, as the specification words it\<close>

text \<open>
  The specification's side of the comparison.  The array found under a key of a
  dictionary (no elements when the value is not a dictionary, has no such key, or holds
  no array there); the items nested in an item; the items of the manifest's \<^verbatim>\<open>"ui"\<close>
  tree.
\<close>

definition array_at :: "string \<Rightarrow> 'f json \<Rightarrow> 'f json list" where
  "array_at key x =
     (case x of
        JObj kvs \<Rightarrow> (case map_of kvs key of Some (JArr xs) \<Rightarrow> xs | _ \<Rightarrow> [])
      | _ \<Rightarrow> [])"

definition nested_items :: "'f json \<Rightarrow> 'f json list" where
  "nested_items item = array_at ''items'' item"

definition ui_items :: "'f json \<Rightarrow> 'f json list" where
  "ui_items manifest = array_at ''ui'' manifest"

lemma weight_elem: "x \<in> set xs \<Longrightarrow> weight x < weight (JArr xs)"
  by (induction xs) auto

lemma weight_nested: "x \<in> set (nested_items item) \<Longrightarrow> weight x < weight item"
proof (cases item)
  case (JObj kvs)
  assume x: "x \<in> set (nested_items item)"
  show ?thesis
  proof (cases "map_of kvs ''items''")
    case None
    with x JObj show ?thesis by (simp add: nested_items_def array_at_def)
  next
    case (Some sub)
    then have "Suc (weight sub) < weight (JObj kvs)" by (rule weight_map_of)
    moreover from x JObj Some have "weight x < weight sub"
      by (cases sub) (auto simp: nested_items_def array_at_def dest: weight_elem)
    ultimately have "weight x < weight (JObj kvs)" by linarith
    then show ?thesis using JObj by (simp del: weight.simps)
  qed
qed (simp_all add: nested_items_def array_at_def)

text \<open>An item, then the subtrees of its nested items, from left to right.\<close>

function depth_first :: "'f json \<Rightarrow> 'f json list" where
  "depth_first item = item # concat (map depth_first (nested_items item))"
  by pat_completeness auto
termination
  by (relation "measure weight") (auto dest: weight_nested)

declare depth_first.simps [simp del]

text \<open>
  The descriptor of an item that matches as a control: a boolean control (button,
  checkbox) gets the fixed range, a control with \<^verbatim>\<open>min\<close>, \<^verbatim>\<open>max\<close> and \<^verbatim>\<open>step\<close> copies
  its range.  Any other item has none.
\<close>

definition control_descriptor :: "'f json \<Rightarrow> 'f json list" where
  "control_descriptor item =
     (case item of
        JObj kvs \<Rightarrow>
          (let label = (case map_of kvs ''shortname'' of Some v \<Rightarrow> v | None \<Rightarrow> JStr '''');
               kind = (case map_of kvs ''type'' of Some v \<Rightarrow> v | None \<Rightarrow> JStr '''')
           in if kind = JStr ''button'' \<or> kind = JStr ''checkbox'' then
                [JObj [(''shortname'', label), (''type'', kind), (''init'', JInt 0),
                       (''min'', JInt 0), (''max'', JInt 1), (''step'', JInt 1)]]
              else
                (case (map_of kvs ''min'', map_of kvs ''max'', map_of kvs ''step'') of
                   (Some lo, Some hi, Some st) \<Rightarrow>
                     [JObj [(''shortname'', label), (''type'', kind),
                            (''init'', (case map_of kvs ''init'' of Some v \<Rightarrow> v | None \<Rightarrow> JInt 0)),
                            (''min'', lo), (''max'', hi), (''step'', st)]]
                 | _ \<Rightarrow> []))
      | _ \<Rightarrow> [])"

text \<open>The descriptors of a list of sibling items, in depth-first order.\<close>

definition descriptors_of :: "'f json list \<Rightarrow> 'f json list" where
  "descriptors_of items = concat (map control_descriptor (concat (map depth_first items)))"

text \<open>
  A tree the extractor walks without an exception: every item is a dictionary, and what
  an item holds under \<^verbatim>\<open>"items"\<close> is an array.
\<close>

definition well_formed_item :: "'f json \<Rightarrow> bool" where
  "well_formed_item item =
     (case item of
        JObj kvs \<Rightarrow>
          (case map_of kvs ''items'' of None \<Rightarrow> True | Some (JArr xs) \<Rightarrow> True | Some _ \<Rightarrow> False)
      | _ \<Rightarrow> False)"

definition well_formed_manifest :: "'f json \<Rightarrow> bool" where
  "well_formed_manifest manifest =
     (case manifest of
        JObj kvs \<Rightarrow>
          (case map_of kvs ''ui'' of
             None \<Rightarrow> True
           | Some (JArr xs) \<Rightarrow> list_all well_formed_item (concat (map depth_first xs))
           | Some _ \<Rightarrow> False)
      | _ \<Rightarrow> False)"

subsection \<open>One turn of the loop\<close>

lemma for_item_not_dict:
  "\<forall>kvs. item \<noteq> JObj kvs \<Longrightarrow> for_item (item # rest) acc = Inl AttributeError"
  by (cases item) (simp_all add: py_get_def)

lemma for_item_dict:
  "for_item (JObj kvs # rest) acc =
     (case (case map_of kvs ''items'' of None \<Rightarrow> Inr [] | Some sub \<Rightarrow> extract_from_ui sub) of
        Inl e \<Rightarrow> Inl e
      | Inr more \<Rightarrow> for_item rest (acc @ control_descriptor (JObj kvs) @ more))"
  by (cases "map_of kvs ''items''"; cases "map_of kvs ''min''"; cases "map_of kvs ''max''";
      cases "map_of kvs ''step''")
     (simp_all add: control_descriptor_def Let_def split: sum.splits)

declare for_item.simps(2) [simp del]

lemma descriptors_of_Nil [simp]: "descriptors_of [] = []"
  by (simp add: descriptors_of_def)

lemma descriptors_of_Cons:
  "descriptors_of (item # rest) =
     control_descriptor item @ descriptors_of (nested_items item) @ descriptors_of rest"
  by (simp add: descriptors_of_def depth_first.simps [of item])

lemma extract_from_ui_Inr:
  assumes "extract_from_ui sub = Inr more"
  obtains its where "py_iter sub = Inr its" "for_item its [] = Inr more"
  using assms by (auto simp: extract_from_ui.simps split: sum.splits)

lemma for_item_Inr_dict:
  assumes "for_item (item # rest) acc = Inr ds"
  obtains kvs where "item = JObj kvs"
  using assms for_item_not_dict [of item rest acc] by auto

text \<open>
  A loop that ends without an exception over the items of \<open>sub\<close> has walked an array, or
  nothing at all: the first key of a dictionary, or the first character of a string, is
  a string and has no \<^verbatim>\<open>get\<close>.
\<close>

lemma iter_is_array:
  assumes "py_iter sub = Inr its" "for_item its [] = Inr more"
  shows "its = (case sub of JArr xs \<Rightarrow> xs | _ \<Rightarrow> [])"
proof (cases sub)
  case (JArr xs)
  with assms show ?thesis by (simp add: py_iter_def)
next
  case (JObj kvs')
  with assms(1) have its: "its = map (\<lambda>kv. JStr (fst kv)) kvs'" by (simp add: py_iter_def)
  have "kvs' = []"
  proof (cases kvs')
    case (Cons kv tl)
    with its assms(2) show ?thesis by (simp add: for_item_not_dict)
  qed simp
  with its JObj show ?thesis by simp
next
  case (JStr s)
  with assms(1) have its: "its = map (\<lambda>c. JStr [c]) s" by (simp add: py_iter_def)
  have "s = []"
  proof (cases s)
    case (Cons c tl)
    with its assms(2) show ?thesis by (simp add: for_item_not_dict)
  qed simp
  with its JStr show ?thesis by simp
qed (use assms in \<open>simp_all add: py_iter_def\<close>)

lemma array_at_Some:
  "map_of kvs key = Some sub \<Longrightarrow>
     array_at key (JObj kvs) = (case sub of JArr xs \<Rightarrow> xs | _ \<Rightarrow> [])"
  by (cases sub) (simp_all add: array_at_def)

subsection \<open>The loop returns the descriptors in depth-first order\<close>

lemma for_item_sound:
  "for_item items acc = Inr ds \<Longrightarrow> ds = acc @ descriptors_of items"
proof (induction "weights items" arbitrary: items acc ds rule: less_induct)
  case less
  show ?case
  proof (cases items)
    case Nil
    with less.prems show ?thesis by simp
  next
    case (Cons item rest)
    with less.prems obtain kvs where item: "item = JObj kvs"
      by (auto elim: for_item_Inr_dict)
    have rest: "weights rest < weights items" using Cons by simp
    show ?thesis
    proof (cases "map_of kvs ''items''")
      case None
      with less.prems Cons item
      have "for_item rest (acc @ control_descriptor item) = Inr ds"
        by (simp add: for_item_dict)
      from less.hyps [OF rest this] None item Cons show ?thesis
        by (simp add: descriptors_of_Cons nested_items_def array_at_def)
    next
      case (Some sub)
      with less.prems Cons item obtain more where
        more: "extract_from_ui sub = Inr more" and
        run: "for_item rest (acc @ control_descriptor item @ more) = Inr ds"
        by (auto simp: for_item_dict split: sum.splits)
      from more obtain its where its: "py_iter sub = Inr its" "for_item its [] = Inr more"
        by (rule extract_from_ui_Inr)
      have "weights its \<le> Suc (weight sub)" using its(1) by (rule weights_iter)
      moreover have "Suc (weight sub) < weight item"
        using Some item weight_map_of [of kvs "''items''" sub] by simp
      ultimately have "weights its < weights items" using Cons by simp
      from less.hyps [OF this its(2)] have "more = descriptors_of its" by simp
      also have "its = nested_items item"
        using iter_is_array [OF its] array_at_Some [OF Some] item
        by (simp add: nested_items_def)
      finally have "more = descriptors_of (nested_items item)" .
      with less.hyps [OF rest run] Cons show ?thesis
        by (simp add: descriptors_of_Cons)
    qed
  qed
qed

lemma list_all_depth_first:
  "list_all P (depth_first item) \<longleftrightarrow>
     P item \<and> list_all P (concat (map depth_first (nested_items item)))"
  by (subst depth_first.simps) simp

lemma for_item_complete:
  "list_all well_formed_item (concat (map depth_first items)) \<Longrightarrow>
     for_item items acc = Inr (acc @ descriptors_of items)"
proof (induction "weights items" arbitrary: items acc rule: less_induct)
  case less
  show ?case
  proof (cases items)
    case Nil
    then show ?thesis by simp
  next
    case (Cons item rest)
    from less.prems Cons have wf: "well_formed_item item"
      and wf_nested: "list_all well_formed_item (concat (map depth_first (nested_items item)))"
      and wf_rest: "list_all well_formed_item (concat (map depth_first rest))"
      by (simp_all add: list_all_depth_first)
    from wf obtain kvs where item: "item = JObj kvs"
      by (cases item) (simp_all add: well_formed_item_def)
    have rest: "weights rest < weights items" using Cons by simp
    note run_rest = less.hyps [OF rest wf_rest]
    show ?thesis
    proof (cases "map_of kvs ''items''")
      case None
      with item Cons run_rest show ?thesis
        by (simp add: for_item_dict descriptors_of_Cons nested_items_def array_at_def)
    next
      case (Some sub)
      with wf item obtain xs where sub: "sub = JArr xs"
        by (cases sub) (simp_all add: well_formed_item_def)
      with Some item have nested: "nested_items item = xs"
        by (simp add: nested_items_def array_at_def)
      have "weights xs < weight (JArr xs)" by (rule weights_elems)
      moreover have "Suc (weight sub) < weight item"
        using Some item weight_map_of [of kvs "''items''" sub] by simp
      ultimately have "weights xs < weights items" using Cons sub by simp
      from less.hyps [OF this] wf_nested nested
      have "for_item xs [] = Inr (descriptors_of xs)" by simp
      then have "extract_from_ui sub = Inr (descriptors_of xs)"
        using sub by (simp add: extract_from_ui.simps py_iter_def)
      with Some item Cons run_rest nested show ?thesis
        by (simp add: for_item_dict descriptors_of_Cons)
    qed
  qed
qed

section \<open>What the extractor returns\<close>

lemma extract_items_info_sound:
  "extract_items_info m = Inr ds \<Longrightarrow> ds = descriptors_of (ui_items m)"
proof (cases m)
  case (JObj kvs)
  assume run: "extract_items_info m = Inr ds"
  show ?thesis
  proof (cases "map_of kvs ''ui''")
    case None
    with run JObj show ?thesis by (simp add: extract_items_info_def ui_items_def array_at_def)
  next
    case (Some ui)
    with run JObj have "extract_from_ui ui = Inr ds" by (simp add: extract_items_info_def)
    then obtain its where its: "py_iter ui = Inr its" "for_item its [] = Inr ds"
      by (rule extract_from_ui_Inr)
    from its(2) have "ds = descriptors_of its" by (auto dest: for_item_sound)
    also have "its = ui_items m"
      using iter_is_array [OF its] array_at_Some [OF Some] JObj by (simp add: ui_items_def)
    finally show ?thesis .
  qed
next
  case (JArr xs)
  assume "extract_items_info m = Inr ds"
  with JArr show ?thesis
    by (auto simp: extract_items_info_def py_in_def py_getitem_def ui_items_def array_at_def
        split: bool.splits)
next
  case (JStr s)
  assume "extract_items_info m = Inr ds"
  with JStr show ?thesis
    by (auto simp: extract_items_info_def py_in_def py_getitem_def ui_items_def array_at_def
        split: bool.splits)
qed (simp_all add: extract_items_info_def py_in_def)

lemma extract_items_info_complete:
  "well_formed_manifest m \<Longrightarrow> extract_items_info m = Inr (descriptors_of (ui_items m))"
proof (cases m)
  case (JObj kvs)
  assume wf: "well_formed_manifest m"
  show ?thesis
  proof (cases "map_of kvs ''ui''")
    case None
    with JObj show ?thesis by (simp add: extract_items_info_def ui_items_def array_at_def)
  next
    case (Some ui)
    with wf JObj obtain xs where ui: "ui = JArr xs"
      and all: "list_all well_formed_item (concat (map depth_first xs))"
      by (cases ui) (simp_all add: well_formed_manifest_def)
    from all have "for_item xs [] = Inr (descriptors_of xs)"
      using for_item_complete [of xs "[]"] by simp
    with Some ui JObj show ?thesis
      by (simp add: extract_items_info_def extract_from_ui.simps py_iter_def ui_items_def
          array_at_def)
  qed
qed (simp_all add: well_formed_manifest_def)

lemma for_item_no_KeyError: "for_item items acc \<noteq> Inl KeyError"
proof (induction "weights items" arbitrary: items acc rule: less_induct)
  case less
  show ?case
  proof (cases items)
    case Nil
    then show ?thesis by simp
  next
    case (Cons item rest)
    have rest: "\<And>acc'. for_item rest acc' \<noteq> Inl KeyError"
      using less.hyps [of rest] Cons by simp
    show ?thesis
    proof (cases "\<exists>kvs. item = JObj kvs")
      case False
      with Cons show ?thesis by (simp add: for_item_not_dict)
    next
      case True
      then obtain kvs where item: "item = JObj kvs" ..
      show ?thesis
      proof (cases "map_of kvs ''items''")
        case None
        with Cons item rest show ?thesis by (simp add: for_item_dict)
      next
        case (Some sub)
        have "Suc (weight sub) < weight item"
          using Some item weight_map_of [of kvs "''items''" sub] by simp
        then have sub: "\<And>its. py_iter sub = Inr its \<Longrightarrow> for_item its [] \<noteq> Inl KeyError"
          using less.hyps Cons by (fastforce dest: weights_iter)
        have "extract_from_ui sub \<noteq> Inl KeyError"
        proof (cases "py_iter sub")
          case (Inl e)
          then have "e = TypeError" by (cases sub) (simp_all add: py_iter_def)
          with Inl show ?thesis by (simp add: extract_from_ui.simps)
        next
          case (Inr its)
          with sub show ?thesis by (simp add: extract_from_ui.simps)
        qed
        with Some Cons item rest show ?thesis
          by (auto simp: for_item_dict split: sum.splits)
      qed
    qed
  qed
qed

lemma extract_items_info_no_KeyError: "extract_items_info m \<noteq> Inl KeyError"
proof (cases m)
  case (JObj kvs)
  show ?thesis
  proof (cases "map_of kvs ''ui''")
    case None
    with JObj show ?thesis by (simp add: extract_items_info_def)
  next
    case (Some ui)
    have "extract_from_ui ui \<noteq> Inl KeyError"
    proof (cases "py_iter ui")
      case (Inl e)
      then have "e = TypeError" by (cases ui) (simp_all add: py_iter_def)
      with Inl show ?thesis by (simp add: extract_from_ui.simps)
    next
      case (Inr its)
      then show ?thesis by (simp add: extract_from_ui.simps for_item_no_KeyError)
    qed
    with Some JObj show ?thesis by (simp add: extract_items_info_def)
  qed
qed (simp_all add: extract_items_info_def py_in_def py_getitem_def split: bool.splits)

lemma descriptor_in_output:
  assumes "extract_items_info m = Inr ds"
    and "item \<in> set (concat (map depth_first (ui_items m)))"
  shows "set (control_descriptor item) \<subseteq> set ds"
proof -
  from assms(1) have "ds = descriptors_of (ui_items m)" by (rule extract_items_info_sound)
  with assms(2) show ?thesis by (auto simp: descriptors_of_def)
qed

lemma output_from_item:
  assumes "extract_items_info m = Inr ds" and "d \<in> set ds"
  obtains item where "item \<in> set (concat (map depth_first (ui_items m)))"
    and "d \<in> set (control_descriptor item)"
proof -
  from assms(1) have "ds = descriptors_of (ui_items m)" by (rule extract_items_info_sound)
  with assms(2) that show ?thesis by (auto simp: descriptors_of_def)
qed

subsection \<open>A manifest to try the theorems on\<close>

definition synth_manifest :: "'f json" where
  "synth_manifest =
     JObj [(''name'', JStr ''synth''), (''inputs'', JInt 0), (''outputs'', JInt 2),
        (''ui'', JArr [JObj [(''type'', JStr ''vgroup''), (''label'', JStr ''synth''),
           (''items'', JArr [
              JObj [(''type'', JStr ''checkbox''), (''shortname'', JStr ''hold''),
                    (''init'', JInt 1), (''min'', JInt 5), (''max'', JInt 9),
                    (''items'', JArr [
                       JObj [(''type'', JStr ''button''), (''shortname'', JStr ''gate'')]])],
              JObj [(''type'', JStr ''hbargraph''), (''shortname'', JStr ''level''),
                    (''min'', JInt 0), (''max'', JInt 1)],
              JObj [(''type'', JStr ''hslider''), (''shortname'', JStr ''freq''),
                    (''init'', JInt 440), (''min'', JInt 20), (''max'', JInt 2000),
                    (''step'', JInt 1)]])]])]"

definition synth_descriptors :: "'f json list" where
  "synth_descriptors =
     [JObj [(''shortname'', JStr ''hold''), (''type'', JStr ''checkbox''), (''init'', JInt 0),
            (''min'', JInt 0), (''max'', JInt 1), (''step'', JInt 1)],
      JObj [(''shortname'', JStr ''gate''), (''type'', JStr ''button''), (''init'', JInt 0),
            (''min'', JInt 0), (''max'', JInt 1), (''step'', JInt 1)],
      JObj [(''shortname'', JStr ''freq''), (''type'', JStr ''hslider''),
            (''init'', JInt 440), (''min'', JInt 20), (''max'', JInt 2000),
            (''step'', JInt 1)]]"

lemma synth_manifest_items:
  "concat (map depth_first (ui_items (synth_manifest :: 'f json))) =
     [JObj [(''type'', JStr ''vgroup''), (''label'', JStr ''synth''),
           (''items'', JArr [
              JObj [(''type'', JStr ''checkbox''), (''shortname'', JStr ''hold''),
                    (''init'', JInt 1), (''min'', JInt 5), (''max'', JInt 9),
                    (''items'', JArr [
                       JObj [(''type'', JStr ''button''), (''shortname'', JStr ''gate'')]])],
              JObj [(''type'', JStr ''hbargraph''), (''shortname'', JStr ''level''),
                    (''min'', JInt 0), (''max'', JInt 1)],
              JObj [(''type'', JStr ''hslider''), (''shortname'', JStr ''freq''),
                    (''init'', JInt 440), (''min'', JInt 20), (''max'', JInt 2000),
                    (''step'', JInt 1)]])],
      JObj [(''type'', JStr ''checkbox''), (''shortname'', JStr ''hold''),
            (''init'', JInt 1), (''min'', JInt 5), (''max'', JInt 9),
            (''items'', JArr [
               JObj [(''type'', JStr ''button''), (''shortname'', JStr ''gate'')]])],
      JObj [(''type'', JStr ''button''), (''shortname'', JStr ''gate'')],
      JObj [(''type'', JStr ''hbargraph''), (''shortname'', JStr ''level''),
            (''min'', JInt 0), (''max'', JInt 1)],
      JObj [(''type'', JStr ''hslider''), (''shortname'', JStr ''freq''),
            (''init'', JInt 440), (''min'', JInt 20), (''max'', JInt 2000),
            (''step'', JInt 1)]]"
  by (simp add: synth_manifest_def depth_first.simps nested_items_def ui_items_def array_at_def)

lemma synth_manifest_run:
  "extract_items_info (synth_manifest :: 'f json) = Inr synth_descriptors"
  by (simp add: synth_manifest_def synth_descriptors_def extract_items_info_def
      extract_from_ui.simps py_iter_def for_item_dict control_descriptor_def)

section \<open>The claims about the extractor\<close>

text \<open>
  Claim C1.  On every manifest on which \<^verbatim>\<open>extract_items_info\<close> returns, the list it
  returns is the list of the control descriptors of the items of the \<^verbatim>\<open>"ui"\<close> tree in
  depth-first order; it does return on every well-formed manifest.  In that order the
  descriptor of an item comes first, then the descriptors of its nested items, then
  those of the siblings that follow it in their list.
\<close>

theorem extract_items_info_depth_first:
  "(well_formed_manifest m \<longrightarrow> extract_items_info m = Inr (descriptors_of (ui_items m))) \<and>
   (\<forall>ds. extract_items_info m = Inr ds \<longrightarrow> ds = descriptors_of (ui_items m)) \<and>
   (\<forall>item rest. descriptors_of (item # rest) =
      control_descriptor item @ descriptors_of (nested_items item) @ descriptors_of rest) \<and>
   descriptors_of [] = []"
  by (simp add: extract_items_info_complete extract_items_info_sound descriptors_of_Cons)

text \<open>The manifest \<open>synth_manifest\<close> is well-formed and yields its three descriptors in order.\<close>

theorem extract_items_info_depth_first_witness:
  "well_formed_manifest (synth_manifest :: 'f json) \<and>
   extract_items_info (synth_manifest :: 'f json) =
   Inr [JObj [(''shortname'', JStr ''hold''), (''type'', JStr ''checkbox''), (''init'', JInt 0),
              (''min'', JInt 0), (''max'', JInt 1), (''step'', JInt 1)],
        JObj [(''shortname'', JStr ''gate''), (''type'', JStr ''button''), (''init'', JInt 0),
              (''min'', JInt 0), (''max'', JInt 1), (''step'', JInt 1)],
        JObj [(''shortname'', JStr ''freq''), (''type'', JStr ''hslider''),
              (''init'', JInt 440), (''min'', JInt 20), (''max'', JInt 2000),
              (''step'', JInt 1)]]"
proof -
  have wf: "well_formed_manifest (synth_manifest :: 'f json)"
    by (simp add: synth_manifest_def well_formed_manifest_def well_formed_item_def
        depth_first.simps nested_items_def array_at_def)
  have "descriptors_of (ui_items (synth_manifest :: 'f json)) =
    [JObj [(''shortname'', JStr ''hold''), (''type'', JStr ''checkbox''), (''init'', JInt 0),
              (''min'', JInt 0), (''max'', JInt 1), (''step'', JInt 1)],
        JObj [(''shortname'', JStr ''gate''), (''type'', JStr ''button''), (''init'', JInt 0),
              (''min'', JInt 0), (''max'', JInt 1), (''step'', JInt 1)],
        JObj [(''shortname'', JStr ''freq''), (''type'', JStr ''hslider''),
              (''init'', JInt 440), (''min'', JInt 20), (''max'', JInt 2000),
              (''step'', JInt 1)]]"
    by (simp add: synth_manifest_def depth_first.simps nested_items_def ui_items_def
        array_at_def descriptors_of_def control_descriptor_def)
  with wf extract_items_info_depth_first [of "synth_manifest :: 'f json", THEN conjunct1]
  show ?thesis by simp
qed

text \<open>
  Claim C2.  For every item of the \<^verbatim>\<open>"ui"\<close> tree, when \<^verbatim>\<open>extract_items_info\<close> returns:
  if the type of the item is \<^verbatim>\<open>"button"\<close> or \<^verbatim>\<open>"checkbox"\<close>, the output holds a descriptor
  of it with init 0, min 0, max 1 and step 1, whatever fields the item has; if it is not
  and the item has \<^verbatim>\<open>"min"\<close>, \<^verbatim>\<open>"max"\<close> and \<^verbatim>\<open>"step"\<close>, the output holds a descriptor of it
  with these three values as they are.
\<close>

theorem control_ranges:
  assumes "extract_items_info m = Inr ds"
    and "JObj kvs \<in> set (concat (map depth_first (ui_items m)))"
    and "py_get (JObj kvs) ''shortname'' (JStr '''') = Inr label"
    and "py_get (JObj kvs) ''type'' (JStr '''') = Inr kind"
    and "py_get (JObj kvs) ''init'' (JInt 0) = Inr init_value"
  shows "(kind = JStr ''button'' \<or> kind = JStr ''checkbox'' \<longrightarrow>
           JObj [(''shortname'', label), (''type'', kind), (''init'', JInt 0),
                 (''min'', JInt 0), (''max'', JInt 1), (''step'', JInt 1)] \<in> set ds) \<and>
         (kind \<noteq> JStr ''button'' \<and> kind \<noteq> JStr ''checkbox'' \<and>
          map_of kvs ''min'' = Some lo \<and> map_of kvs ''max'' = Some hi \<and>
          map_of kvs ''step'' = Some st \<longrightarrow>
           JObj [(''shortname'', label), (''type'', kind), (''init'', init_value),
                 (''min'', lo), (''max'', hi), (''step'', st)] \<in> set ds)"
  using descriptor_in_output [OF assms(1,2)] assms(3-5)
  by (auto simp: control_descriptor_def Let_def)

text \<open>
  In \<open>synth_manifest\<close> the checkbox carries \<^verbatim>\<open>init\<close> 1, \<^verbatim>\<open>min\<close> 5 and \<^verbatim>\<open>max\<close> 9 and still
  gets the fixed range; the slider keeps its own.
\<close>

theorem control_ranges_witness:
  "extract_items_info (synth_manifest :: 'f json) = Inr synth_descriptors \<and>
   JObj [(''shortname'', JStr ''hold''), (''type'', JStr ''checkbox''), (''init'', JInt 0),
         (''min'', JInt 0), (''max'', JInt 1), (''step'', JInt 1)]
     \<in> set (synth_descriptors :: 'f json list) \<and>
   JObj [(''shortname'', JStr ''freq''), (''type'', JStr ''hslider''), (''init'', JInt 440),
         (''min'', JInt 20), (''max'', JInt 2000), (''step'', JInt 1)]
     \<in> set (synth_descriptors :: 'f json list)"
proof -
  note run = synth_manifest_run [where 'f = 'f]
  have hold: "JObj [(''type'', JStr ''checkbox''), (''shortname'', JStr ''hold''),
            (''init'', JInt 1), (''min'', JInt 5), (''max'', JInt 9),
            (''items'', JArr [
               JObj [(''type'', JStr ''button''), (''shortname'', JStr ''gate'')]])]
      \<in> set (concat (map depth_first (ui_items (synth_manifest :: 'f json))))"
    by (simp add: synth_manifest_items)
  have freq: "JObj [(''type'', JStr ''hslider''), (''shortname'', JStr ''freq''),
            (''init'', JInt 440), (''min'', JInt 20), (''max'', JInt 2000),
            (''step'', JInt 1)]
      \<in> set (concat (map depth_first (ui_items (synth_manifest :: 'f json))))"
    by (simp add: synth_manifest_items)
  from control_ranges [OF run hold, of "JStr ''hold''" "JStr ''checkbox''" "JInt 1",
      THEN conjunct1]
    control_ranges [OF run freq, of "JStr ''freq''" "JStr ''hslider''" "JInt 440"
      "JInt 20" "JInt 2000" "JInt 1", THEN conjunct2]
    run
  show ?thesis by simp
qed

text \<open>
  Claim C5 as stated fails: a slider without \<^verbatim>\<open>"min"\<close> raises no lookup failure, the
  extractor returns the empty list.
\<close>

theorem missing_keys_counterexample:
  "extract_items_info
     (JObj [(''ui'', JArr [JObj [(''type'', JStr ''hslider''), (''shortname'', JStr ''freq''),
                                 (''init'', JInt 440), (''max'', JInt 2000), (''step'', JInt 1)]])])
   = Inr []"
  by (simp add: extract_items_info_def extract_from_ui.simps py_iter_def for_item.simps)

text \<open>
  Claim C5, as amended.  On an item without \<^verbatim>\<open>"shortname"\<close> the loop does what it does on
  the item with \<^verbatim>\<open>"shortname"\<close> set to the empty string; likewise for \<^verbatim>\<open>"type"\<close> and the
  empty string, and for \<^verbatim>\<open>"init"\<close> and 0.  An item that is no button and no checkbox and
  lacks \<^verbatim>\<open>"min"\<close>, \<^verbatim>\<open>"max"\<close> or \<^verbatim>\<open>"step"\<close> adds no descriptor and raises nothing: the
  \<^verbatim>\<open>elif\<close> tests for the three keys before it reads them.  No manifest makes
  \<^verbatim>\<open>extract_items_info\<close> raise a \<^verbatim>\<open>KeyError\<close>.
\<close>

theorem missing_keys:
  "(map_of kvs ''shortname'' = None \<longrightarrow>
      for_item (JObj kvs # rest) acc = for_item (JObj ((''shortname'', JStr '''') # kvs) # rest) acc) \<and>
   (map_of kvs ''type'' = None \<longrightarrow>
      for_item (JObj kvs # rest) acc = for_item (JObj ((''type'', JStr '''') # kvs) # rest) acc) \<and>
   (map_of kvs ''init'' = None \<longrightarrow>
      for_item (JObj kvs # rest) acc = for_item (JObj ((''init'', JInt 0) # kvs) # rest) acc) \<and>
   (map_of kvs ''type'' \<noteq> Some (JStr ''button'') \<and> map_of kvs ''type'' \<noteq> Some (JStr ''checkbox'') \<and>
    (map_of kvs ''min'' = None \<or> map_of kvs ''max'' = None \<or> map_of kvs ''step'' = None) \<longrightarrow>
      for_item (JObj kvs # rest) acc =
        (case (case map_of kvs ''items'' of None \<Rightarrow> Inr [] | Some sub \<Rightarrow> extract_from_ui sub) of
           Inl e \<Rightarrow> Inl e
         | Inr more \<Rightarrow> for_item rest (acc @ more))) \<and>
   extract_items_info m \<noteq> Inl KeyError"
  by (cases "map_of kvs ''items''"; cases "map_of kvs ''min''"; cases "map_of kvs ''max''";
      cases "map_of kvs ''step''")
     (auto simp: for_item_dict control_descriptor_def Let_def extract_items_info_no_KeyError
        split: sum.splits option.splits)

text \<open>
  A button without \<^verbatim>\<open>"shortname"\<close>, a range control without \<^verbatim>\<open>"type"\<close> and \<^verbatim>\<open>"init"\<close>, and a
  slider without \<^verbatim>\<open>"min"\<close>.
\<close>

theorem missing_keys_witness:
  "for_item [JObj [(''type'', JStr ''button'')]] [] =
     Inr [JObj [(''shortname'', JStr ''''), (''type'', JStr ''button''), (''init'', JInt 0),
                (''min'', JInt 0), (''max'', JInt 1), (''step'', JInt 1)] :: 'f json] \<and>
   for_item [JObj [(''shortname'', JStr ''vol''), (''min'', JInt 0), (''max'', JInt 1),
                   (''step'', JInt 1)]] [] =
     Inr [JObj [(''shortname'', JStr ''vol''), (''type'', JStr ''''), (''init'', JInt 0),
                (''min'', JInt 0), (''max'', JInt 1), (''step'', JInt 1)] :: 'f json] \<and>
   for_item [JObj [(''type'', JStr ''hslider''), (''shortname'', JStr ''vol''),
                   (''max'', JInt 1), (''step'', JInt 1)]] [] = Inr ([] :: 'f json list)"
proof -
  note a = missing_keys [of "[(''type'', JStr ''button'')]" "[]" "[] :: 'f json list",
      THEN conjunct1]
  note b = missing_keys [of "[(''shortname'', JStr ''vol''), (''min'', JInt 0),
      (''max'', JInt 1), (''step'', JInt 1)]" "[]" "[] :: 'f json list",
      THEN conjunct2, THEN conjunct1]
  note c = missing_keys [of "[(''type'', JStr ''''), (''shortname'', JStr ''vol''),
      (''min'', JInt 0), (''max'', JInt 1), (''step'', JInt 1)]" "[]" "[] :: 'f json list",
      THEN conjunct2, THEN conjunct2, THEN conjunct1]
  note d = missing_keys [of "[(''type'', JStr ''hslider''), (''shortname'', JStr ''vol''),
      (''max'', JInt 1), (''step'', JInt 1)]" "[]" "[] :: 'f json list",
      THEN conjunct2, THEN conjunct2, THEN conjunct2, THEN conjunct1]
  show ?thesis by (simp add: a b c d) (simp add: for_item.simps)
qed

text \<open>
  Claim C6 as stated fails: the type of a range control is copied, not checked, so an
  item of type \<^verbatim>\<open>"knob"\<close> with a range yields a descriptor of type \<^verbatim>\<open>"knob"\<close>, which is
  none of the four kinds, under their names in the specification or in a manifest.
\<close>

theorem descriptor_types_counterexample:
  "extract_items_info
     (JObj [(''ui'', JArr [JObj [(''type'', JStr ''knob''), (''shortname'', JStr ''drive''),
                                 (''min'', JInt 0), (''max'', JInt 1), (''step'', JInt 1)]])])
   = Inr [JObj [(''shortname'', JStr ''drive''), (''type'', JStr ''knob''), (''init'', JInt 0),
                (''min'', JInt 0), (''max'', JInt 1), (''step'', JInt 1)]]
   \<and> ''knob'' \<notin> set [''button'', ''checkbox'', ''slider'', ''numeric-entry'',
                       ''hslider'', ''vslider'', ''nentry'']"
  by (simp add: extract_items_info_def extract_from_ui.simps py_iter_def for_item.simps)

text \<open>
  Claim C6, as amended.  The type of a descriptor is \<^verbatim>\<open>"button"\<close>, \<^verbatim>\<open>"checkbox"\<close>, or the
  type that the code reads from an item of the tree that has \<^verbatim>\<open>"min"\<close>, \<^verbatim>\<open>"max"\<close> and
  \<^verbatim>\<open>"step"\<close>: when the type of each of those items is \<^verbatim>\<open>"button"\<close>, \<^verbatim>\<open>"checkbox"\<close> or in a
  set \<open>T\<close>, so is the type of each descriptor.
\<close>

theorem descriptor_types:
  assumes "extract_items_info m = Inr ds"
    and "\<forall>kvs. JObj kvs \<in> set (concat (map depth_first (ui_items m))) \<and>
           has_min_max_step (JObj kvs) = Inr True \<longrightarrow>
           (\<exists>ty. py_get (JObj kvs) ''type'' (JStr '''') = Inr ty \<and>
              (ty = JStr ''button'' \<or> ty = JStr ''checkbox'' \<or> ty \<in> T))"
  shows "\<forall>d\<in>set ds. \<exists>ty. py_getitem d ''type'' = Inr ty \<and>
           (ty = JStr ''button'' \<or> ty = JStr ''checkbox'' \<or> ty \<in> T)"
proof
  fix d assume "d \<in> set ds"
  with assms(1) obtain item where item: "item \<in> set (concat (map depth_first (ui_items m)))"
    and d: "d \<in> set (control_descriptor item)"
    by (rule output_from_item)
  from d obtain kvs where kvs: "item = JObj kvs"
    by (cases item) (simp_all add: control_descriptor_def)
  show "\<exists>ty. py_getitem d ''type'' = Inr ty \<and>
           (ty = JStr ''button'' \<or> ty = JStr ''checkbox'' \<or> ty \<in> T)"
    using d assms(2) [rule_format, of kvs] item kvs
    by (cases "map_of kvs ''min''"; cases "map_of kvs ''max''"; cases "map_of kvs ''step''")
       (auto simp: control_descriptor_def Let_def split: if_splits)
qed

text \<open>In \<open>synth_manifest\<close> the one item with a range is a horizontal slider.\<close>

theorem descriptor_types_witness:
  "extract_items_info (synth_manifest :: 'f json) = Inr synth_descriptors \<and>
   list_all (\<lambda>d. \<exists>ty. py_getitem d ''type'' = Inr ty \<and>
      (ty = JStr ''button'' \<or> ty = JStr ''checkbox'' \<or> ty \<in> {JStr ''hslider''}))
     (synth_descriptors :: 'f json list)"
proof -
  note run = synth_manifest_run [where 'f = 'f]
  have "\<forall>kvs. JObj kvs \<in> set (concat (map depth_first (ui_items (synth_manifest :: 'f json)))) \<and>
           has_min_max_step (JObj kvs) = Inr True \<longrightarrow>
           (\<exists>ty. py_get (JObj kvs) ''type'' (JStr '''') = Inr ty \<and>
              (ty = JStr ''button'' \<or> ty = JStr ''checkbox'' \<or> ty \<in> {JStr ''hslider''}))"
    by (auto simp: synth_manifest_items)
  from descriptor_types [OF run this] run show ?thesis by (simp add: list_all_iff)
qed

text \<open>
  Claim C10.  An item that matches as a control and has an \<^verbatim>\<open>"items"\<close> key adds its own
  descriptor to the list and, right after it, what \<^verbatim>\<open>extract_from_ui\<close> returns on the value
  of \<^verbatim>\<open>"items"\<close>, which is the list of the descriptors of its descendants; then the loop
  goes on with the next item.
\<close>

theorem recursion_unconditional:
  assumes "map_of kvs ''items'' = Some sub"
    and "py_get (JObj kvs) ''shortname'' (JStr '''') = Inr label"
    and "py_get (JObj kvs) ''type'' (JStr '''') = Inr kind"
    and "py_get (JObj kvs) ''init'' (JInt 0) = Inr init_value"
  shows "(kind = JStr ''button'' \<or> kind = JStr ''checkbox'' \<longrightarrow>
           for_item (JObj kvs # rest) acc =
             (case extract_from_ui sub of
                Inl e \<Rightarrow> Inl e
              | Inr more \<Rightarrow>
                  for_item rest
                    (acc @ [JObj [(''shortname'', label), (''type'', kind), (''init'', JInt 0),
                                  (''min'', JInt 0), (''max'', JInt 1), (''step'', JInt 1)]]
                         @ more))) \<and>
         (kind \<noteq> JStr ''button'' \<and> kind \<noteq> JStr ''checkbox'' \<and>
          map_of kvs ''min'' = Some lo \<and> map_of kvs ''max'' = Some hi \<and>
          map_of kvs ''step'' = Some st \<longrightarrow>
           for_item (JObj kvs # rest) acc =
             (case extract_from_ui sub of
                Inl e \<Rightarrow> Inl e
              | Inr more \<Rightarrow>
                  for_item rest
                    (acc @ [JObj [(''shortname'', label), (''type'', kind),
                                  (''init'', init_value), (''min'', lo), (''max'', hi),
                                  (''step'', st)]]
                         @ more))) \<and>
         (\<forall>more. extract_from_ui sub = Inr more \<longrightarrow>
            more = descriptors_of (nested_items (JObj kvs)))"
proof -
  have "more = descriptors_of (nested_items (JObj kvs))" if "extract_from_ui sub = Inr more" for more
  proof -
    from that obtain its where its: "py_iter sub = Inr its" "for_item its [] = Inr more"
      by (rule extract_from_ui_Inr)
    from its(2) have "more = descriptors_of its" by (auto dest: for_item_sound)
    also have "its = nested_items (JObj kvs)"
      using iter_is_array [OF its] array_at_Some [OF assms(1)] by (simp add: nested_items_def)
    finally show ?thesis .
  qed
  then show ?thesis using assms
    by (cases "extract_from_ui sub") (auto simp: for_item_dict control_descriptor_def Let_def)
qed

text \<open>A checkbox and a numeric entry, each with a nested button.\<close>

theorem recursion_unconditional_witness:
  "for_item
     [JObj [(''type'', JStr ''checkbox''), (''shortname'', JStr ''hold''),
            (''items'', JArr [JObj [(''type'', JStr ''button''), (''shortname'', JStr ''gate'')]])],
      JObj [(''type'', JStr ''nentry''), (''shortname'', JStr ''voices''),
            (''min'', JInt 1), (''max'', JInt 8), (''step'', JInt 1),
            (''items'', JArr [JObj [(''type'', JStr ''button''), (''shortname'', JStr ''panic'')]])]]
     [] =
   Inr [JObj [(''shortname'', JStr ''hold''), (''type'', JStr ''checkbox''), (''init'', JInt 0),
              (''min'', JInt 0), (''max'', JInt 1), (''step'', JInt 1)],
        JObj [(''shortname'', JStr ''gate''), (''type'', JStr ''button''), (''init'', JInt 0),
              (''min'', JInt 0), (''max'', JInt 1), (''step'', JInt 1)],
        JObj [(''shortname'', JStr ''voices''), (''type'', JStr ''nentry''), (''init'', JInt 0),
              (''min'', JInt 1), (''max'', JInt 8), (''step'', JInt 1)],
        JObj [(''shortname'', JStr ''panic''), (''type'', JStr ''button''), (''init'', JInt 0),
              (''min'', JInt 0), (''max'', JInt 1), (''step'', JInt 1)] :: 'f json]"
proof -
  have gate: "extract_from_ui (JArr [JObj [(''type'', JStr ''button''), (''shortname'', JStr ''gate'')]])
      = Inr [JObj [(''shortname'', JStr ''gate''), (''type'', JStr ''button''), (''init'', JInt 0),
              (''min'', JInt 0), (''max'', JInt 1), (''step'', JInt 1)] :: 'f json]"
    by (simp add: extract_from_ui.simps py_iter_def for_item.simps)
  have panic: "extract_from_ui (JArr [JObj [(''type'', JStr ''button''), (''shortname'', JStr ''panic'')]])
      = Inr [JObj [(''shortname'', JStr ''panic''), (''type'', JStr ''button''), (''init'', JInt 0),
              (''min'', JInt 0), (''max'', JInt 1), (''step'', JInt 1)] :: 'f json]"
    by (simp add: extract_from_ui.simps py_iter_def for_item.simps)
  note first = recursion_unconditional
    [of "[(''type'', JStr ''checkbox''), (''shortname'', JStr ''hold''),
            (''items'', JArr [JObj [(''type'', JStr ''button''), (''shortname'', JStr ''gate'')]])]"
        "JArr [JObj [(''type'', JStr ''button''), (''shortname'', JStr ''gate'') :: string \<times> 'f json]]"
        "JStr ''hold''" "JStr ''checkbox''" "JInt 0", THEN conjunct1]
  note second = recursion_unconditional
    [of "[(''type'', JStr ''nentry''), (''shortname'', JStr ''voices''),
            (''min'', JInt 1), (''max'', JInt 8), (''step'', JInt 1),
            (''items'', JArr [JObj [(''type'', JStr ''button''), (''shortname'', JStr ''panic'')]])]"
        "JArr [JObj [(''type'', JStr ''button''), (''shortname'', JStr ''panic'') :: string \<times> 'f json]]"
        "JStr ''voices''" "JStr ''nentry''" "JInt 0" _ _ "JInt 1" "JInt 8" "JInt 1",
        THEN conjunct2, THEN conjunct1]
  show ?thesis by (simp add: first second gate panic)
qed

section \<open>The patch builder\<close>

text \<open>
  \<^verbatim>\<open>create_rnbo_patch\<close> drives the patch-object library \<^verbatim>\<open>py2max\<close>, which is not among
  the sources.  The specification describes what it holds: nodes (a device wrapper with
  its subpatch, a code block, input and output stubs, display and setter nodes) and
  directed edges between them, kept in memory until the patch is saved.  The library is
  modelled as exactly that: a patcher is the list of its boxes, in the order of their
  creation, and the list of its lines; every \<^verbatim>\<open>add_\<close> call adds one box, or one line, as
  the caller asks for it.  A box is known by its position in the list of its patcher.
  Patchers are objects: the subpatcher of the \<^verbatim>\<open>rnbo~\<close> box is reached from the box and
  changed through \<^verbatim>\<open>sp\<close>, so they live in a store, a list indexed by address, and a box
  holds the address of its subpatcher.  An address comes from an allocation, so it is
  always within the store.

  Coordinates are reals; the one operation on them, \<^verbatim>\<open>y - 25\<close>, is rounded by Python and
  exact here, and no claim is about coordinates.  Where the caller gives no rectangle the
  library picks one: the function \<open>layout\<close>, a parameter of the model.
\<close>

text \<open>
  Modelled from the spec: the boxes, lines and patchers of \<^verbatim>\<open>py2max\<close>.  A box keeps what
  its \<^verbatim>\<open>add_\<close> call was given: the text, the keyword arguments (JSON values), the code, and
  for the \<^verbatim>\<open>rnbo~\<close> box the address of its subpatcher.
\<close>

type_synonym rect = "real \<times> real \<times> real \<times> real"

datatype 'f box_kind =
    Comment string
  | Textbox string "(string \<times> 'f json) list"
  | Rnbo "(string \<times> 'f json) list" nat
  | Codebox_tilde string

record 'f box =
  kind :: "'f box_kind"
  patching_rect :: rect

record patchline =
  source :: nat
  outlet :: nat
  destination :: nat
  inlet :: nat

record 'f patcher =
  path :: "string option"
  boxes :: "'f box list"
  lines :: "patchline list"

text \<open>Modelled from the spec: the constructor \<^verbatim>\<open>Patcher(path)\<close> of \<^verbatim>\<open>py2max\<close>, an empty patch.\<close>

definition Patcher :: "string option \<Rightarrow> 'f patcher" where
  "Patcher p = \<lparr>path = p, boxes = [], lines = []\<rparr>"

text \<open>A method call on the patcher object at address \<open>a\<close> of the store.\<close>

definition on :: "nat \<Rightarrow> ('f patcher \<Rightarrow> 'a \<times> 'f patcher) \<Rightarrow> 'f patcher list \<Rightarrow> 'a \<times> 'f patcher list" where
  "on a m s = (case m (s ! a) of (r, p) \<Rightarrow> (r, s[a := p]))"

text \<open>
  Modelled from the spec: every node the library creates is added after the ones the
  patcher has; the caller gets the new box back.
\<close>

definition add_box :: "'f box \<Rightarrow> 'f patcher \<Rightarrow> nat \<times> 'f patcher" where
  "add_box b p = (length (boxes p), p\<lparr>boxes := boxes p @ [b]\<rparr>)"

text \<open>Modelled from the spec: \<^verbatim>\<open>add_comment(text, patching_rect=...)\<close> of \<^verbatim>\<open>py2max\<close>.\<close>

definition add_comment :: "string \<Rightarrow> rect \<Rightarrow> 'f patcher \<Rightarrow> nat \<times> 'f patcher" where
  "add_comment text r p = add_box \<lparr>kind = Comment text, patching_rect = r\<rparr> p"

text \<open>
  Modelled from the spec: \<^verbatim>\<open>add_textbox(text, patching_rect=..., **kwds)\<close> of \<^verbatim>\<open>py2max\<close>; the
  keyword arguments are kept with the box.
\<close>

definition add_textbox ::
  "('f patcher \<Rightarrow> rect) \<Rightarrow> string \<Rightarrow> (string \<times> 'f json) list \<Rightarrow> rect option \<Rightarrow>
     'f patcher \<Rightarrow> nat \<times> 'f patcher" where
  "add_textbox layout text kwds r p =
     add_box \<lparr>kind = Textbox text kwds,
              patching_rect = (case r of Some r' \<Rightarrow> r' | None \<Rightarrow> layout p)\<rparr> p"

text \<open>Modelled from the spec: \<^verbatim>\<open>add_codebox_tilde(code=..., patching_rect=...)\<close> of \<^verbatim>\<open>py2max\<close>.\<close>

definition add_codebox_tilde :: "string \<Rightarrow> rect \<Rightarrow> 'f patcher \<Rightarrow> nat \<times> 'f patcher" where
  "add_codebox_tilde code r p = add_box \<lparr>kind = Codebox_tilde code, patching_rect = r\<rparr> p"

text \<open>
  Modelled from the spec: \<^verbatim>\<open>add_line(src, dst, inlet=0, outlet=0)\<close> of \<^verbatim>\<open>py2max\<close>, one
  directed edge from an outlet of \<^verbatim>\<open>src\<close> to an inlet of \<^verbatim>\<open>dst\<close>.
\<close>

definition add_line :: "nat \<Rightarrow> nat \<Rightarrow> nat \<Rightarrow> nat \<Rightarrow> 'f patcher \<Rightarrow> unit \<times> 'f patcher" where
  "add_line src dst inl outl p =
     ((), p\<lparr>lines := lines p @ [\<lparr>source = src, outlet = outl, destination = dst, inlet = inl\<rparr>]\<rparr>)"

text \<open>
  Modelled from the spec: \<^verbatim>\<open>add_rnbo(patching_rect=..., **kwds)\<close> of \<^verbatim>\<open>py2max\<close>, the device
  wrapper node: a box that owns a new, empty patcher.
\<close>

definition add_rnbo ::
  "(string \<times> 'f json) list \<Rightarrow> rect \<Rightarrow> nat \<Rightarrow> 'f patcher list \<Rightarrow> nat \<times> 'f patcher list" where
  "add_rnbo kwds r a s =
     on a (add_box \<lparr>kind = Rnbo kwds (length s), patching_rect = r\<rparr>) (s @ [Patcher None])"

text \<open>Modelled from the spec: the attribute \<^verbatim>\<open>subpatcher\<close> of a box of \<^verbatim>\<open>py2max\<close>.\<close>

definition subpatcher :: "'f box \<Rightarrow> nat option" where
  "subpatcher b = (case kind b of Rnbo kwds sub \<Rightarrow> Some sub | _ \<Rightarrow> None)"

text \<open>
  The f-strings.  \<^verbatim>\<open>str\<close> of an integer is its decimal numeral.  A string is inserted as
  it is, \<^verbatim>\<open>None\<close> and the booleans by their names; what Python prints for a float, a list
  or a dictionary is the parameter \<open>repr\<close> of the model.
\<close>

fun decimal :: "nat \<Rightarrow> string" where
  "decimal n =
     (if n < 10 then [''0123456789'' ! n]
      else decimal (n div 10) @ [''0123456789'' ! (n mod 10)])"

declare decimal.simps [simp del]

definition py_str_int :: "int \<Rightarrow> string" where
  "py_str_int i = (if i < 0 then ''-'' @ decimal (nat (- i)) else decimal (nat i))"

definition py_format :: "('f json \<Rightarrow> string) \<Rightarrow> 'f json \<Rightarrow> string" where
  "py_format repr v =
     (case v of
        JStr s \<Rightarrow> s
      | JInt i \<Rightarrow> py_str_int i
      | JBool b \<Rightarrow> (if b then ''True'' else ''False'')
      | JNull \<Rightarrow> ''None''
      | _ \<Rightarrow> repr v)"

text \<open>
  \<^verbatim>\<open>range(n)\<close>: the indices below \<open>n\<close>, none when \<open>n\<close> is negative; a boolean counts as 0
  or 1; any other JSON value is a \<^verbatim>\<open>TypeError\<close>.
\<close>

definition py_range :: "'f json \<Rightarrow> py_error + nat list" where
  "py_range n =
     (case n of
        JInt i \<Rightarrow> Inr [0..<nat i]
      | JBool b \<Rightarrow> Inr [0..<(if b then 1 else 0)]
      | _ \<Rightarrow> Inl TypeError)"

text \<open>
  The three loops of \<^verbatim>\<open>create_rnbo_patch\<close>, on the subpatcher at address \<open>sp\<close>, with the
  code node \<open>codebox\<close>.
\<close>

fun add_inputs ::
  "('f patcher \<Rightarrow> rect) \<Rightarrow> nat \<Rightarrow> nat \<Rightarrow> nat list \<Rightarrow> 'f patcher list \<Rightarrow> 'f patcher list" where
  "add_inputs layout sp codebox [] s = s"
| "add_inputs layout sp codebox (i # idxs) s =
     (case on sp (add_textbox layout (''in~ '' @ py_str_int (int i + 1)) [] None) s of
        (input_box, s1) \<Rightarrow>
     (case on sp (add_line input_box codebox i 0) s1 of
        (u, s2) \<Rightarrow> add_inputs layout sp codebox idxs s2))"

fun add_outputs ::
  "('f patcher \<Rightarrow> rect) \<Rightarrow> nat \<Rightarrow> nat \<Rightarrow> nat list \<Rightarrow> 'f patcher list \<Rightarrow> 'f patcher list" where
  "add_outputs layout sp codebox [] s = s"
| "add_outputs layout sp codebox (i # idxs) s =
     (case on sp (add_textbox layout (''out~ '' @ py_str_int (int i + 1)) [] None) s of
        (output_box, s1) \<Rightarrow>
     (case on sp (add_line codebox output_box 0 i) s1 of
        (u, s2) \<Rightarrow> add_outputs layout sp codebox idxs s2))"

fun add_params ::
  "('f patcher \<Rightarrow> rect) \<Rightarrow> ('f json \<Rightarrow> string) \<Rightarrow> nat \<Rightarrow> nat \<Rightarrow> 'f json list \<Rightarrow>
     'f patcher list \<Rightarrow> py_error + 'f patcher list" where
  "add_params layout repr sp codebox [] s = Inr s"
| "add_params layout repr sp codebox (item # rest) s =
     (case py_getitem item ''shortname'' of
        Inl e \<Rightarrow> Inl e
      | Inr shortname \<Rightarrow>
     (case py_getitem item ''type'' of
        Inl e \<Rightarrow> Inl e
      | Inr item_type \<Rightarrow>
     (case on sp (add_textbox layout (''set '' @ py_format repr shortname) [] None) s of
        (param, s1) \<Rightarrow>
     (case patching_rect (boxes (s1 ! sp) ! param) of
        (x, y, w, h) \<Rightarrow>
     (case
        (if item_type \<in> set [JStr ''button'', JStr ''checkbox''] then
           Inr (on sp (add_textbox layout ''toggle'' [] (Some (x, y - 25, 24, 24))) s1)
         else
           (case py_getitem item ''min'' of
              Inl e \<Rightarrow> Inl e
            | Inr min_value \<Rightarrow>
           (case py_getitem item ''max'' of
              Inl e \<Rightarrow> Inl e
            | Inr max_value \<Rightarrow>
           (case py_getitem item ''init'' of
              Inl e \<Rightarrow> Inl e
            | Inr init_value \<Rightarrow>
                Inr (on sp (add_textbox layout ''number~''
                       [(''mode'', JInt 1), (''sig'', init_value), (''minimum'', min_value),
                        (''maximum'', max_value)]
                       (Some (x, y - 25, w, h))) s1)))))
      of
        Inl e \<Rightarrow> Inl e
      | Inr (val, s2) \<Rightarrow>
     (case on sp (add_line val param 0 0) s2 of
        (u, s3) \<Rightarrow>
     (case on sp (add_line param codebox 0 0) s3 of
        (u', s4) \<Rightarrow> add_params layout repr sp codebox rest s4)))))))"

text \<open>
  \<^verbatim>\<open>create_rnbo_patch\<close>.  \<^verbatim>\<open>patcher.save()\<close> writes the object model as it then is: the
  model returns the store.  An exception leaves the function before anything is saved.
\<close>

definition create_rnbo_patch ::
  "('f patcher \<Rightarrow> rect) \<Rightarrow> ('f json \<Rightarrow> string) \<Rightarrow> string \<Rightarrow> string \<Rightarrow> string \<Rightarrow>
     'f json list \<Rightarrow> 'f json \<Rightarrow> 'f json \<Rightarrow> py_error + 'f patcher list" where
  "create_rnbo_patch layout repr maxpat_path dsp_name codebox_code items_info_list
       num_inputs num_outputs =
     (let patcher = 0; s0 = [Patcher (Some maxpat_path)] in
      case on patcher (add_comment ''Faust generated RNBO patch, Copyright (c) 2023 Grame''
             (50, 20, 250, 50)) s0 of
        (c, s1) \<Rightarrow>
     (case on patcher (add_textbox layout ''ezdac~'' [] (Some (50, 100, 50, 50))) s1 of
        (audio_out, s2) \<Rightarrow>
     (case add_rnbo
             [(''saved_object_attributes'',
               JObj [(''optimization'', JStr ''O3''), (''title'', JStr dsp_name)])]
             (50, 60, 50, 50) patcher s2 of
        (sbox, s3) \<Rightarrow>
     (case subpatcher (boxes (s3 ! patcher) ! sbox) of
        None \<Rightarrow> Inl AttributeError
      | Some sp \<Rightarrow>
     (case on sp (add_codebox_tilde codebox_code (200, 200, 400, 400)) s3 of
        (codebox, s4) \<Rightarrow>
     (case py_range num_inputs of
        Inl e \<Rightarrow> Inl e
      | Inr ins \<Rightarrow>
     (case py_range num_outputs of
        Inl e \<Rightarrow> Inl e
      | Inr outs \<Rightarrow>
     (case add_params layout repr sp codebox items_info_list
             (add_outputs layout sp codebox outs (add_inputs layout sp codebox ins s4)) of
        Inl e \<Rightarrow> Inl e
      | Inr s5 \<Rightarrow> Inr s5))))))))"


lemma on_nth:
  "a < length s \<Longrightarrow> on a m s = (fst (m (s ! a)), s[a := snd (m (s ! a))])"
  by (simp add: on_def split: prod.splits)

subsection \<open>What the loops add\<close>

definition line_to :: "nat \<Rightarrow> nat \<times> nat \<Rightarrow> patchline" where
  "line_to c bi = \<lparr>source = fst bi, outlet = 0, destination = c, inlet = snd bi\<rparr>"

definition line_from :: "nat \<Rightarrow> nat \<times> nat \<Rightarrow> patchline" where
  "line_from c bi = \<lparr>source = c, outlet = snd bi, destination = fst bi, inlet = 0\<rparr>"

lemma add_inputs_props:
  "sp < length s \<Longrightarrow>
   length (add_inputs layout sp c idxs s) = length s \<and>
   (\<forall>a. a \<noteq> sp \<longrightarrow> add_inputs layout sp c idxs s ! a = s ! a) \<and>
   path (add_inputs layout sp c idxs s ! sp) = path (s ! sp) \<and>
   map kind (boxes (add_inputs layout sp c idxs s ! sp)) =
     map kind (boxes (s ! sp)) @ map (\<lambda>i. Textbox (''in~ '' @ py_str_int (int i + 1)) []) idxs \<and>
   lines (add_inputs layout sp c idxs s ! sp) =
     lines (s ! sp) @ map (line_to c) (enumerate (length (boxes (s ! sp))) idxs)"
proof (induction idxs arbitrary: s)
  case Nil
  then show ?case by simp
next
  case (Cons i idxs)
  let ?s2 = "s[sp := (s ! sp)\<lparr>boxes := boxes (s ! sp) @
        [\<lparr>kind = Textbox (''in~ '' @ py_str_int (int i + 1)) [], patching_rect = layout (s ! sp)\<rparr>],
      lines := lines (s ! sp) @ [line_to c (length (boxes (s ! sp)), i)]\<rparr>]"
  have step: "add_inputs layout sp c (i # idxs) s = add_inputs layout sp c idxs ?s2"
    using Cons.prems
    by (simp add: on_nth add_textbox_def add_box_def add_line_def line_to_def)
  have len: "sp < length ?s2" using Cons.prems by simp
  from Cons.IH [OF len] Cons.prems show ?case
    unfolding step by (simp add: line_to_def)
qed

lemma add_outputs_props:
  "sp < length s \<Longrightarrow>
   length (add_outputs layout sp c idxs s) = length s \<and>
   (\<forall>a. a \<noteq> sp \<longrightarrow> add_outputs layout sp c idxs s ! a = s ! a) \<and>
   path (add_outputs layout sp c idxs s ! sp) = path (s ! sp) \<and>
   map kind (boxes (add_outputs layout sp c idxs s ! sp)) =
     map kind (boxes (s ! sp)) @ map (\<lambda>i. Textbox (''out~ '' @ py_str_int (int i + 1)) []) idxs \<and>
   lines (add_outputs layout sp c idxs s ! sp) =
     lines (s ! sp) @ map (line_from c) (enumerate (length (boxes (s ! sp))) idxs)"
proof (induction idxs arbitrary: s)
  case Nil
  then show ?case by simp
next
  case (Cons i idxs)
  let ?s2 = "s[sp := (s ! sp)\<lparr>boxes := boxes (s ! sp) @
        [\<lparr>kind = Textbox (''out~ '' @ py_str_int (int i + 1)) [], patching_rect = layout (s ! sp)\<rparr>],
      lines := lines (s ! sp) @ [line_from c (length (boxes (s ! sp)), i)]\<rparr>]"
  have step: "add_outputs layout sp c (i # idxs) s = add_outputs layout sp c idxs ?s2"
    using Cons.prems
    by (simp add: on_nth add_textbox_def add_box_def add_line_def line_from_def)
  have len: "sp < length ?s2" using Cons.prems by simp
  from Cons.IH [OF len] Cons.prems show ?case
    unfolding step by (simp add: line_from_def)
qed

text \<open>
  The two nodes of a control descriptor, as the specification words them: a setter
  \<^verbatim>\<open>set <shortname>\<close> and a display, a toggle for a boolean control and a numeric display
  with the descriptor's init, min and max otherwise.  \<open>descriptor_ok\<close> holds of a
  descriptor that has the keys the builder reads.
\<close>

definition field :: "'f json \<Rightarrow> string \<Rightarrow> 'f json" where
  "field d key = (case py_getitem d key of Inr v \<Rightarrow> v | Inl e \<Rightarrow> JNull)"

definition setter_box :: "('f json \<Rightarrow> string) \<Rightarrow> 'f json \<Rightarrow> 'f box_kind" where
  "setter_box repr d = Textbox (''set '' @ py_format repr (field d ''shortname'')) []"

definition display_box :: "'f json \<Rightarrow> 'f box_kind" where
  "display_box d =
     (if field d ''type'' = JStr ''button'' \<or> field d ''type'' = JStr ''checkbox''
      then Textbox ''toggle'' []
      else Textbox ''number~''
             [(''mode'', JInt 1), (''sig'', field d ''init''), (''minimum'', field d ''min''),
              (''maximum'', field d ''max'')])"

definition descriptor_ok :: "'f json \<Rightarrow> bool" where
  "descriptor_ok d =
     (case d of
        JObj kvs \<Rightarrow>
          map_of kvs ''shortname'' \<noteq> None \<and> map_of kvs ''type'' \<noteq> None \<and>
          (map_of kvs ''type'' = Some (JStr ''button'') \<or>
           map_of kvs ''type'' = Some (JStr ''checkbox'') \<or>
           map_of kvs ''min'' \<noteq> None \<and> map_of kvs ''max'' \<noteq> None \<and>
           map_of kvs ''init'' \<noteq> None)
      | _ \<Rightarrow> False)"

definition param_lines :: "nat \<Rightarrow> nat \<Rightarrow> nat \<Rightarrow> patchline list" where
  "param_lines b c k =
     [\<lparr>source = b + 2 * k + 1, outlet = 0, destination = b + 2 * k, inlet = 0\<rparr>,
      \<lparr>source = b + 2 * k, outlet = 0, destination = c, inlet = 0\<rparr>]"

lemma param_lines_Suc: "param_lines b c (Suc k) = param_lines (b + 2) c k"
  by (simp add: param_lines_def)

lemma param_lines_upt:
  "concat (map (param_lines b c) [0..<Suc n]) =
     param_lines b c 0 @ concat (map (param_lines (b + 2) c) [0..<n])"
proof -
  have "[0..<Suc n] = 0 # map Suc [0..<n]"
    by (simp add: upt_conv_Cons map_Suc_upt del: upt_Suc)
  then show ?thesis by (simp add: comp_def param_lines_Suc del: upt_Suc)
qed

lemma add_params_step:
  assumes "sp < length s" and "add_params layout repr sp c (item # rest) s = Inr s'"
  obtains b1 b2 where "kind b1 = setter_box repr item" and "kind b2 = display_box item"
    and "add_params layout repr sp c rest
           (s[sp := (s ! sp)\<lparr>boxes := boxes (s ! sp) @ [b1, b2],
                             lines := lines (s ! sp) @ param_lines (length (boxes (s ! sp))) c 0\<rparr>])
         = Inr s'"
proof -
  from assms(2) obtain shortname where sn: "py_getitem item ''shortname'' = Inr shortname"
    by (cases "py_getitem item ''shortname''") simp_all
  from assms(2) sn obtain item_type where ty: "py_getitem item ''type'' = Inr item_type"
    by (cases "py_getitem item ''type''") simp_all
  let ?b1 = "\<lparr>kind = Textbox (''set '' @ py_format repr shortname) [],
              patching_rect = layout (s ! sp)\<rparr> :: 'a box"
  obtain x y w h where r: "layout (s ! sp) = (x, y, w, h)" by (cases "layout (s ! sp)")
  show ?thesis
  proof (cases "item_type = JStr ''button'' \<or> item_type = JStr ''checkbox''")
    case True
    let ?b2 = "\<lparr>kind = Textbox ''toggle'' [], patching_rect = (x, y - 25, 24, 24)\<rparr> :: 'a box"
    have "kind ?b1 = setter_box repr item" using sn by (simp add: setter_box_def field_def)
    moreover have "kind ?b2 = display_box item" using ty True by (auto simp: display_box_def field_def)
    moreover have "add_params layout repr sp c rest
           (s[sp := (s ! sp)\<lparr>boxes := boxes (s ! sp) @ [?b1, ?b2],
                             lines := lines (s ! sp) @ param_lines (length (boxes (s ! sp))) c 0\<rparr>])
         = Inr s'"
      using assms sn ty True r
      by (auto simp: on_nth add_textbox_def add_box_def add_line_def param_lines_def)
    ultimately show ?thesis by (rule that)
  next
    case False
    from assms(2) sn ty False obtain min_value where mn: "py_getitem item ''min'' = Inr min_value"
      by (cases "py_getitem item ''min''") (simp_all split: prod.splits)
    from assms(2) sn ty False mn obtain max_value where mx: "py_getitem item ''max'' = Inr max_value"
      by (cases "py_getitem item ''max''") (simp_all split: prod.splits)
    from assms(2) sn ty False mn mx obtain init_value where
      iv: "py_getitem item ''init'' = Inr init_value"
      by (cases "py_getitem item ''init''") (simp_all split: prod.splits)
    let ?b2 = "\<lparr>kind = Textbox ''number~''
                  [(''mode'', JInt 1), (''sig'', init_value), (''minimum'', min_value),
                   (''maximum'', max_value)],
                patching_rect = (x, y - 25, w, h)\<rparr> :: 'a box"
    have "kind ?b1 = setter_box repr item" using sn by (simp add: setter_box_def field_def)
    moreover have "kind ?b2 = display_box item"
      using ty False mn mx iv by (auto simp: display_box_def field_def)
    moreover have "add_params layout repr sp c rest
           (s[sp := (s ! sp)\<lparr>boxes := boxes (s ! sp) @ [?b1, ?b2],
                             lines := lines (s ! sp) @ param_lines (length (boxes (s ! sp))) c 0\<rparr>])
         = Inr s'"
      using assms sn ty False mn mx iv r
      by (auto simp: on_nth add_textbox_def add_box_def add_line_def param_lines_def)
    ultimately show ?thesis by (rule that)
  qed
qed

lemma add_params_Inr:
  "add_params layout repr sp c items s = Inr s' \<Longrightarrow> sp < length s \<Longrightarrow>
   length s' = length s \<and>
   (\<forall>a. a \<noteq> sp \<longrightarrow> s' ! a = s ! a) \<and>
   path (s' ! sp) = path (s ! sp) \<and>
   map kind (boxes (s' ! sp)) =
     map kind (boxes (s ! sp)) @ concat (map (\<lambda>d. [setter_box repr d, display_box d]) items) \<and>
   lines (s' ! sp) =
     lines (s ! sp) @ concat (map (param_lines (length (boxes (s ! sp))) c) [0..<length items])"
proof (induction items arbitrary: s)
  case Nil
  then show ?case by simp
next
  case (Cons item rest)
  from Cons.prems(2,1) obtain b1 b2 where b1: "kind b1 = setter_box repr item"
    and b2: "kind b2 = display_box item"
    and run: "add_params layout repr sp c rest
           (s[sp := (s ! sp)\<lparr>boxes := boxes (s ! sp) @ [b1, b2],
                             lines := lines (s ! sp) @ param_lines (length (boxes (s ! sp))) c 0\<rparr>])
         = Inr s'"
    by (rule add_params_step)
  from Cons.IH [OF run] Cons.prems(2) b1 b2 show ?case
    by (simp add: param_lines_upt del: upt_Suc)
qed

lemma add_params_ok:
  "list_all descriptor_ok items \<Longrightarrow> \<exists>s'. add_params layout repr sp c items s = Inr s'"
proof (induction items arbitrary: s)
  case Nil
  then show ?case by simp
next
  case (Cons item rest)
  then obtain kvs where item: "item = JObj kvs" and ok: "descriptor_ok (JObj kvs)"
    by (cases item) (simp_all add: descriptor_ok_def)
  from Cons have rest: "\<And>s. \<exists>s'. add_params layout repr sp c rest s = Inr s'" by simp
  from ok obtain shortname item_type where
    sn: "map_of kvs ''shortname'' = Some shortname" and ty: "map_of kvs ''type'' = Some item_type"
    by (auto simp: descriptor_ok_def)
  show ?case
  proof (cases "item_type = JStr ''button'' \<or> item_type = JStr ''checkbox''")
    case True
    with item sn ty rest show ?thesis
      by (auto simp: split: prod.splits)
  next
    case False
    with ok ty obtain lo hi iv where "map_of kvs ''min'' = Some lo" "map_of kvs ''max'' = Some hi"
      "map_of kvs ''init'' = Some iv"
      by (auto simp: descriptor_ok_def)
    with False item sn ty rest show ?thesis
      by (auto simp: split: prod.splits)
  qed
qed

subsection \<open>The whole patch\<close>

definition in_stub :: "nat \<Rightarrow> 'f box_kind" where
  "in_stub i = Textbox (''in~ '' @ py_str_int (int i + 1)) []"

definition out_stub :: "nat \<Rightarrow> 'f box_kind" where
  "out_stub i = Textbox (''out~ '' @ py_str_int (int i + 1)) []"

definition top_level :: "string \<Rightarrow> string \<Rightarrow> 'f patcher" where
  "top_level maxpat_path dsp_name =
     \<lparr>path = Some maxpat_path,
      boxes =
        [\<lparr>kind = Comment ''Faust generated RNBO patch, Copyright (c) 2023 Grame'',
          patching_rect = (50, 20, 250, 50)\<rparr>,
         \<lparr>kind = Textbox ''ezdac~'' [], patching_rect = (50, 100, 50, 50)\<rparr>,
         \<lparr>kind = Rnbo [(''saved_object_attributes'',
                          JObj [(''optimization'', JStr ''O3''), (''title'', JStr dsp_name)])] 1,
          patching_rect = (50, 60, 50, 50)\<rparr>],
      lines = []\<rparr>"

lemma create_rnbo_patch_unfold:
  "create_rnbo_patch layout repr maxpat_path dsp_name codebox_code items num_inputs num_outputs =
     (case py_range num_inputs of
        Inl e \<Rightarrow> Inl e
      | Inr ins \<Rightarrow>
     (case py_range num_outputs of
        Inl e \<Rightarrow> Inl e
      | Inr outs \<Rightarrow>
          add_params layout repr 1 0 items
            (add_outputs layout 1 0 outs
              (add_inputs layout 1 0 ins
                [top_level maxpat_path dsp_name,
                 \<lparr>path = None,
                  boxes = [\<lparr>kind = Codebox_tilde codebox_code,
                            patching_rect = (200, 200, 400, 400)\<rparr>],
                  lines = []\<rparr>]))))"
  by (simp add: create_rnbo_patch_def Let_def on_def add_comment_def add_textbox_def
      add_box_def add_rnbo_def add_codebox_tilde_def Patcher_def subpatcher_def top_level_def
      split: sum.splits)

lemma create_rnbo_patch_Inr:
  assumes "create_rnbo_patch layout repr maxpat_path dsp_name codebox_code items
             num_inputs num_outputs = Inr s"
  obtains ins outs where "py_range num_inputs = Inr ins" and "py_range num_outputs = Inr outs"
    and "length s = 2" and "s ! 0 = top_level maxpat_path dsp_name" and "path (s ! 1) = None"
    and "map kind (boxes (s ! 1)) =
           Codebox_tilde codebox_code # map in_stub ins @ map out_stub outs @
           concat (map (\<lambda>d. [setter_box repr d, display_box d]) items)"
    and "lines (s ! 1) =
           map (line_to 0) (enumerate 1 ins) @
           map (line_from 0) (enumerate (1 + length ins) outs) @
           concat (map (param_lines (1 + length ins + length outs) 0) [0..<length items])"
proof -
  from assms obtain ins where ins: "py_range num_inputs = Inr ins"
    by (cases "py_range num_inputs") (simp_all add: create_rnbo_patch_unfold)
  from assms ins obtain outs where outs: "py_range num_outputs = Inr outs"
    by (cases "py_range num_outputs") (simp_all add: create_rnbo_patch_unfold)
  let ?s4 = "[top_level maxpat_path dsp_name,
                 \<lparr>path = None,
                  boxes = [\<lparr>kind = Codebox_tilde codebox_code,
                            patching_rect = (200, 200, 400, 400)\<rparr>],
                  lines = []\<rparr>] :: 'a patcher list"
  let ?s5 = "add_inputs layout 1 0 ins ?s4"
  let ?s6 = "add_outputs layout 1 0 outs ?s5"
  from assms ins outs have run: "add_params layout repr 1 0 items ?s6 = Inr s"
    by (simp add: create_rnbo_patch_unfold)
  have l4: "1 < length ?s4" by simp
  note p5 = add_inputs_props [OF l4, of layout 0 ins]
  from p5 have l5: "1 < length ?s5" by simp
  note p6 = add_outputs_props [OF l5, of layout 0 outs]
  from p6 p5 have l6: "1 < length ?s6" by simp
  note p7 = add_params_Inr [OF run l6]
  have "length s = 2" using p5 p6 p7 by simp
  moreover have "s ! 0 = top_level maxpat_path dsp_name"
  proof -
    have "s ! 0 = ?s6 ! 0" using p7 by simp
    also have "\<dots> = ?s5 ! 0" using p6 by simp
    also have "\<dots> = ?s4 ! 0" using p5 by simp
    finally show ?thesis by simp
  qed
  moreover have "path (s ! 1) = None" using p5 p6 p7 by simp
  moreover have "map kind (boxes (s ! 1)) =
           Codebox_tilde codebox_code # map in_stub ins @ map out_stub outs @
           concat (map (\<lambda>d. [setter_box repr d, display_box d]) items)"
    using p5 p6 p7 by (simp add: in_stub_def out_stub_def)
  moreover have n5: "length (boxes (?s5 ! 1)) = 1 + length ins"
  proof -
    have "map kind (boxes (?s5 ! 1)) = Codebox_tilde codebox_code # map in_stub ins"
      using p5 by (simp add: in_stub_def)
    from arg_cong [OF this, of length] show ?thesis by simp
  qed
  moreover have "length (boxes (?s6 ! 1)) = 1 + length ins + length outs"
  proof -
    have "map kind (boxes (?s6 ! 1)) =
        map kind (boxes (?s5 ! 1)) @ map out_stub outs"
      using p6 by (simp add: out_stub_def)
    from arg_cong [OF this, of length] n5 show ?thesis by simp
  qed
  ultimately show ?thesis using p5 p6 p7 ins outs
    by (intro that [of ins outs]) simp_all
qed

lemma create_rnbo_patch_ok:
  assumes "list_all descriptor_ok items"
    and "py_range num_inputs = Inr ins" and "py_range num_outputs = Inr outs"
  shows "\<exists>s. create_rnbo_patch layout repr maxpat_path dsp_name codebox_code items
               num_inputs num_outputs = Inr s"
  using assms by (simp add: create_rnbo_patch_unfold add_params_ok)

text \<open>Telling the boxes of the subpatch apart.\<close>

definition is_in_stub :: "'f box_kind \<Rightarrow> bool" where
  "is_in_stub k = (case k of Textbox t kwds \<Rightarrow> take 4 t = ''in~ '' | _ \<Rightarrow> False)"

definition is_out_stub :: "'f box_kind \<Rightarrow> bool" where
  "is_out_stub k = (case k of Textbox t kwds \<Rightarrow> take 5 t = ''out~ '' | _ \<Rightarrow> False)"

definition is_codebox :: "'f box_kind \<Rightarrow> bool" where
  "is_codebox k = (case k of Codebox_tilde code \<Rightarrow> True | _ \<Rightarrow> False)"

lemma enumerate_upt: "enumerate b [0..<n] = map (\<lambda>i. (b + i, i)) [0..<n]"
  by (rule nth_equalityI) (simp_all add: nth_enumerate_eq)

lemma filter_stubs [simp]:
  "filter is_in_stub (map in_stub idxs) = map in_stub idxs"
  "filter is_in_stub (map out_stub idxs) = []"
  "filter is_out_stub (map out_stub idxs) = map out_stub idxs"
  "filter is_out_stub (map in_stub idxs) = []"
  "filter is_codebox (map in_stub idxs) = []"
  "filter is_codebox (map out_stub idxs) = []"
  by (induction idxs) (simp_all add: is_in_stub_def is_out_stub_def is_codebox_def in_stub_def out_stub_def)

lemma filter_params [simp]:
  "filter is_in_stub (concat (map (\<lambda>d. [setter_box repr d, display_box d]) items)) = []"
  "filter is_out_stub (concat (map (\<lambda>d. [setter_box repr d, display_box d]) items)) = []"
  "filter is_codebox (concat (map (\<lambda>d. [setter_box repr d, display_box d]) items)) = []"
  by (induction items)
     (simp_all add: is_in_stub_def is_out_stub_def is_codebox_def setter_box_def display_box_def)

lemma py_range_int [simp]: "py_range (JInt n) = Inr [0..<nat n]"
  by (simp add: py_range_def)

subsection \<open>The claims about the patch builder\<close>

lemma decimal_digit: "n < 10 \<Longrightarrow> decimal n = [''0123456789'' ! n]"
  by (simp add: decimal.simps)

lemma synth_descriptors_ok: "list_all descriptor_ok (synth_descriptors :: 'f json list)"
  by (simp add: synth_descriptors_def descriptor_ok_def)

text \<open>
  Claim C3.  Built with the input count \<open>num_inputs\<close> and the output count \<open>num_outputs\<close>,
  the subpatch (the patcher at address 1, which the \<^verbatim>\<open>rnbo~\<close> box owns) has the code node as
  its first box and exactly \<open>num_inputs\<close> input stubs, labelled \<^verbatim>\<open>in~ 1\<close> to
  \<^verbatim>\<open>in~ num_inputs\<close>, right after it, then exactly \<open>num_outputs\<close> output stubs, labelled
  \<^verbatim>\<open>out~ 1\<close> to \<^verbatim>\<open>out~ num_outputs\<close>.  Counting from 0 as the loop does, stub \<open>i\<close> of the
  inputs (labelled \<^verbatim>\<open>in~\<close> \<open>i + 1\<close>) is wired into inlet \<open>i\<close> of the code node, and outlet \<open>i\<close>
  of the code node into stub \<open>i\<close> of the outputs.
\<close>

theorem input_output_stubs:
  assumes "list_all descriptor_ok items"
  shows "\<exists>s. create_rnbo_patch layout repr maxpat_path dsp_name codebox_code items
               (JInt num_inputs) (JInt num_outputs) = Inr s \<and>
           subpatcher (boxes (s ! 0) ! 2) = Some 1 \<and>
           map kind (take 1 (boxes (s ! 1))) = [Codebox_tilde codebox_code] \<and>
           filter is_in_stub (map kind (boxes (s ! 1))) = map in_stub [0..<nat num_inputs] \<and>
           filter is_out_stub (map kind (boxes (s ! 1))) = map out_stub [0..<nat num_outputs] \<and>
           map kind (take (nat num_inputs) (drop 1 (boxes (s ! 1)))) =
             map in_stub [0..<nat num_inputs] \<and>
           map kind (take (nat num_outputs) (drop (1 + nat num_inputs) (boxes (s ! 1)))) =
             map out_stub [0..<nat num_outputs] \<and>
           take (nat num_inputs) (lines (s ! 1)) =
             map (\<lambda>i. \<lparr>source = 1 + i, outlet = 0, destination = 0, inlet = i\<rparr>)
               [0..<nat num_inputs] \<and>
           take (nat num_outputs) (drop (nat num_inputs) (lines (s ! 1))) =
             map (\<lambda>i. \<lparr>source = 0, outlet = i, destination = 1 + nat num_inputs + i, inlet = 0\<rparr>)
               [0..<nat num_outputs]"
proof -
  from assms obtain s where run: "create_rnbo_patch layout repr maxpat_path dsp_name
      codebox_code items (JInt num_inputs) (JInt num_outputs) = Inr s"
    using create_rnbo_patch_ok [OF assms py_range_int py_range_int] by blast
  from run obtain ins outs where "py_range (JInt num_inputs :: 'a json) = Inr ins"
    and "py_range (JInt num_outputs :: 'a json) = Inr outs"
    and top: "s ! 0 = top_level maxpat_path dsp_name"
    and kinds: "map kind (boxes (s ! 1)) =
           Codebox_tilde codebox_code # map in_stub ins @ map out_stub outs @
           concat (map (\<lambda>d. [setter_box repr d, display_box d]) items)"
    and lines: "lines (s ! 1) =
           map (line_to 0) (enumerate 1 ins) @
           map (line_from 0) (enumerate (1 + length ins) outs) @
           concat (map (param_lines (1 + length ins + length outs) 0) [0..<length items])"
    by (rule create_rnbo_patch_Inr) (rule that)
  then have ins: "ins = [0..<nat num_inputs]" and outs: "outs = [0..<nat num_outputs]"
    by simp_all
  have 1: "subpatcher (boxes (s ! 0) ! 2) = Some 1"
    by (simp add: top top_level_def subpatcher_def)
  have 2: "map kind (take 1 (boxes (s ! 1))) = [Codebox_tilde codebox_code]"
    using arg_cong [OF kinds, of "take 1"] by (simp add: take_map)
  have 3: "filter is_in_stub (map kind (boxes (s ! 1))) = map in_stub [0..<nat num_inputs]"
    unfolding kinds by (simp add: ins is_in_stub_def)
  have 4: "filter is_out_stub (map kind (boxes (s ! 1))) = map out_stub [0..<nat num_outputs]"
    unfolding kinds by (simp add: outs is_out_stub_def)
  have 5: "map kind (take (nat num_inputs) (drop 1 (boxes (s ! 1)))) =
             map in_stub [0..<nat num_inputs]"
    using arg_cong [OF kinds, of "\<lambda>ks. take (nat num_inputs) (drop 1 ks)"]
    by (simp add: take_map drop_map ins)
  have 6: "map kind (take (nat num_outputs) (drop (1 + nat num_inputs) (boxes (s ! 1)))) =
             map out_stub [0..<nat num_outputs]"
    using arg_cong [OF kinds, of "\<lambda>ks. take (nat num_outputs) (drop (1 + nat num_inputs) ks)"]
    by (simp add: take_map drop_map ins outs)
  have 7: "take (nat num_inputs) (lines (s ! 1)) =
             map (\<lambda>i. \<lparr>source = 1 + i, outlet = 0, destination = 0, inlet = i\<rparr>)
               [0..<nat num_inputs]"
    unfolding lines by (simp add: ins enumerate_upt line_to_def comp_def)
  have 8: "take (nat num_outputs) (drop (nat num_inputs) (lines (s ! 1))) =
             map (\<lambda>i. \<lparr>source = 0, outlet = i, destination = 1 + nat num_inputs + i, inlet = 0\<rparr>)
               [0..<nat num_outputs]"
    unfolding lines by (simp add: ins outs enumerate_upt line_from_def comp_def)
  show ?thesis by (rule exI [of _ s]) (intro conjI run 1 2 3 4 5 6 7 8)
qed

text \<open>One input, two outputs and the descriptors of \<open>synth_manifest\<close>.\<close>

theorem input_output_stubs_witness:
  "list_all descriptor_ok (synth_descriptors :: 'f json list) \<and>
   (\<exists>s. create_rnbo_patch (\<lambda>p. (0, 0, 0, 0)) (\<lambda>v. []) ''synth.maxpat'' ''synth''
           ''process'' (synth_descriptors :: 'f json list) (JInt 1) (JInt 2) = Inr s \<and>
        filter is_in_stub (map kind (boxes (s ! 1))) = [Textbox ''in~ 1'' []] \<and>
        filter is_out_stub (map kind (boxes (s ! 1))) =
          [Textbox ''out~ 1'' [], Textbox ''out~ 2'' []] \<and>
        take 1 (lines (s ! 1)) = [\<lparr>source = 1, outlet = 0, destination = 0, inlet = 0\<rparr>] \<and>
        take 2 (drop 1 (lines (s ! 1))) =
          [\<lparr>source = 0, outlet = 0, destination = 2, inlet = 0\<rparr>,
           \<lparr>source = 0, outlet = 1, destination = 3, inlet = 0\<rparr>])"
proof -
  note ok = synth_descriptors_ok [where 'f = 'f]
  from input_output_stubs [OF ok, of "\<lambda>p. (0, 0, 0, 0)" "\<lambda>v. []" "''synth.maxpat''" "''synth''"
      "''process''" 1 2]
  obtain s where "create_rnbo_patch (\<lambda>p. (0, 0, 0, 0)) (\<lambda>v. []) ''synth.maxpat'' ''synth''
           ''process'' (synth_descriptors :: 'f json list) (JInt 1) (JInt 2) = Inr s"
    and "filter is_in_stub (map kind (boxes (s ! 1))) = map in_stub [0..<nat 1]"
    and "filter is_out_stub (map kind (boxes (s ! 1))) = map out_stub [0..<nat 2]"
    and "take (nat 1) (lines (s ! 1)) =
             map (\<lambda>i. \<lparr>source = 1 + i, outlet = 0, destination = 0, inlet = i\<rparr>) [0..<nat 1]"
    and "take (nat 2) (drop (nat 1) (lines (s ! 1))) =
             map (\<lambda>i. \<lparr>source = 0, outlet = i, destination = 1 + nat 1 + i, inlet = 0\<rparr>)
               [0..<nat 2]"
    by blast
  then show ?thesis using ok
    by (intro conjI exI [of _ s])
       (simp_all add: in_stub_def out_stub_def py_str_int_def decimal_digit upt_rec)
qed

text \<open>
  Claim C4.  After the stubs, the subpatch holds for each control descriptor, in the
  order of the list, its setter \<^verbatim>\<open>set <shortname>\<close> and its display, and nothing else; its
  lines after those of the stubs are, for each descriptor, one from the display to the
  setter and one from the setter to the code node.
\<close>

theorem control_nodes:
  assumes "list_all descriptor_ok items"
  shows "\<exists>s. create_rnbo_patch layout repr maxpat_path dsp_name codebox_code items
               (JInt num_inputs) (JInt num_outputs) = Inr s \<and>
           subpatcher (boxes (s ! 0) ! 2) = Some 1 \<and>
           map kind (take 1 (boxes (s ! 1))) = [Codebox_tilde codebox_code] \<and>
           map kind (drop (1 + nat num_inputs + nat num_outputs) (boxes (s ! 1))) =
             concat (map (\<lambda>d. [setter_box repr d, display_box d]) items) \<and>
           drop (nat num_inputs + nat num_outputs) (lines (s ! 1)) =
             concat (map (\<lambda>k.
                 [\<lparr>source = 1 + nat num_inputs + nat num_outputs + 2 * k + 1, outlet = 0,
                   destination = 1 + nat num_inputs + nat num_outputs + 2 * k, inlet = 0\<rparr>,
                  \<lparr>source = 1 + nat num_inputs + nat num_outputs + 2 * k, outlet = 0,
                   destination = 0, inlet = 0\<rparr>])
               [0..<length items])"
proof -
  from assms obtain s where run: "create_rnbo_patch layout repr maxpat_path dsp_name
      codebox_code items (JInt num_inputs) (JInt num_outputs) = Inr s"
    using create_rnbo_patch_ok [OF assms py_range_int py_range_int] by blast
  from run obtain ins outs where "py_range (JInt num_inputs :: 'a json) = Inr ins"
    and "py_range (JInt num_outputs :: 'a json) = Inr outs"
    and top: "s ! 0 = top_level maxpat_path dsp_name"
    and kinds: "map kind (boxes (s ! 1)) =
           Codebox_tilde codebox_code # map in_stub ins @ map out_stub outs @
           concat (map (\<lambda>d. [setter_box repr d, display_box d]) items)"
    and lines: "lines (s ! 1) =
           map (line_to 0) (enumerate 1 ins) @
           map (line_from 0) (enumerate (1 + length ins) outs) @
           concat (map (param_lines (1 + length ins + length outs) 0) [0..<length items])"
    by (rule create_rnbo_patch_Inr) (rule that)
  then have ins: "ins = [0..<nat num_inputs]" and outs: "outs = [0..<nat num_outputs]"
    by simp_all
  have 1: "subpatcher (boxes (s ! 0) ! 2) = Some 1"
    by (simp add: top top_level_def subpatcher_def)
  have 2: "map kind (take 1 (boxes (s ! 1))) = [Codebox_tilde codebox_code]"
    using arg_cong [OF kinds, of "take 1"] by (simp add: take_map)
  have 3: "map kind (drop (1 + nat num_inputs + nat num_outputs) (boxes (s ! 1))) =
             concat (map (\<lambda>d. [setter_box repr d, display_box d]) items)"
    using arg_cong [OF kinds, of "drop (1 + nat num_inputs + nat num_outputs)"]
    by (simp add: drop_map ins outs)
  have 4: "drop (nat num_inputs + nat num_outputs) (lines (s ! 1)) =
             concat (map (\<lambda>k.
                 [\<lparr>source = 1 + nat num_inputs + nat num_outputs + 2 * k + 1, outlet = 0,
                   destination = 1 + nat num_inputs + nat num_outputs + 2 * k, inlet = 0\<rparr>,
                  \<lparr>source = 1 + nat num_inputs + nat num_outputs + 2 * k, outlet = 0,
                   destination = 0, inlet = 0\<rparr>])
               [0..<length items])"
    unfolding lines by (simp add: ins outs param_lines_def [abs_def])
  show ?thesis by (rule exI [of _ s]) (intro conjI run 1 2 3 4)
qed

text \<open>A checkbox, a button and a slider.\<close>

theorem control_nodes_witness:
  "list_all descriptor_ok (synth_descriptors :: 'f json list) \<and>
   (\<exists>s. create_rnbo_patch (\<lambda>p. (0, 0, 0, 0)) (\<lambda>v. []) ''synth.maxpat'' ''synth''
           ''process'' (synth_descriptors :: 'f json list) (JInt 1) (JInt 2) = Inr s \<and>
        map kind (drop 4 (boxes (s ! 1))) =
          [Textbox ''set hold'' [], Textbox ''toggle'' [],
           Textbox ''set gate'' [], Textbox ''toggle'' [],
           Textbox ''set freq'' [],
           Textbox ''number~'' [(''mode'', JInt 1), (''sig'', JInt 440), (''minimum'', JInt 20),
                                (''maximum'', JInt 2000)]] \<and>
        drop 3 (lines (s ! 1)) =
          [\<lparr>source = 5, outlet = 0, destination = 4, inlet = 0\<rparr>,
           \<lparr>source = 4, outlet = 0, destination = 0, inlet = 0\<rparr>,
           \<lparr>source = 7, outlet = 0, destination = 6, inlet = 0\<rparr>,
           \<lparr>source = 6, outlet = 0, destination = 0, inlet = 0\<rparr>,
           \<lparr>source = 9, outlet = 0, destination = 8, inlet = 0\<rparr>,
           \<lparr>source = 8, outlet = 0, destination = 0, inlet = 0\<rparr>])"
proof -
  note ok = synth_descriptors_ok [where 'f = 'f]
  from control_nodes [OF ok, of "\<lambda>p. (0, 0, 0, 0)" "\<lambda>v. []" "''synth.maxpat''" "''synth''"
      "''process''" 1 2]
  obtain s where "create_rnbo_patch (\<lambda>p. (0, 0, 0, 0)) (\<lambda>v. []) ''synth.maxpat'' ''synth''
           ''process'' (synth_descriptors :: 'f json list) (JInt 1) (JInt 2) = Inr s"
    and "map kind (drop (1 + nat 1 + nat 2) (boxes (s ! 1))) =
             concat (map (\<lambda>d. [setter_box (\<lambda>v. []) d, display_box d])
               (synth_descriptors :: 'f json list))"
    and "drop (nat 1 + nat 2) (lines (s ! 1)) =
             concat (map (\<lambda>k.
                 [\<lparr>source = 1 + nat 1 + nat 2 + 2 * k + 1, outlet = 0,
                   destination = 1 + nat 1 + nat 2 + 2 * k, inlet = 0\<rparr>,
                  \<lparr>source = 1 + nat 1 + nat 2 + 2 * k, outlet = 0,
                   destination = 0, inlet = 0\<rparr>])
               [0..<length (synth_descriptors :: 'f json list)])"
    by blast
  then show ?thesis using ok
    by (intro conjI exI [of _ s])
       (simp_all add: synth_descriptors_def setter_box_def display_box_def field_def
          py_format_def upt_rec eval_nat_numeral)
qed

text \<open>
  Claim C7.  Whatever the descriptors and the channel counts, a patch that
  \<^verbatim>\<open>create_rnbo_patch\<close> saves has two patchers: the top level, with the comment, one
  \<^verbatim>\<open>ezdac~\<close> box and one \<^verbatim>\<open>rnbo~\<close> box that owns the second, and no lines; and the subpatch,
  whose first box is the one code node, holding the code text that was passed.  It does
  save one when the counts are integers (or booleans) and the descriptors have their keys.
\<close>

theorem fixed_topology:
  "(\<forall>s. create_rnbo_patch layout repr maxpat_path dsp_name codebox_code items
           num_inputs num_outputs = Inr s \<longrightarrow>
        length s = 2 \<and>
        path (s ! 0) = Some maxpat_path \<and>
        map kind (boxes (s ! 0)) =
          [Comment ''Faust generated RNBO patch, Copyright (c) 2023 Grame'',
           Textbox ''ezdac~'' [],
           Rnbo [(''saved_object_attributes'',
                  JObj [(''optimization'', JStr ''O3''), (''title'', JStr dsp_name)])] 1] \<and>
        lines (s ! 0) = [] \<and>
        map kind (take 1 (boxes (s ! 1))) = [Codebox_tilde codebox_code] \<and>
        filter is_codebox (map kind (boxes (s ! 1))) = [Codebox_tilde codebox_code]) \<and>
   (list_all descriptor_ok items \<and> py_range num_inputs \<noteq> Inl TypeError \<and>
    py_range num_outputs \<noteq> Inl TypeError \<longrightarrow>
      (\<exists>s. create_rnbo_patch layout repr maxpat_path dsp_name codebox_code items
             num_inputs num_outputs = Inr s))"
proof (intro conjI allI impI)
  fix s
  assume "create_rnbo_patch layout repr maxpat_path dsp_name codebox_code items
           num_inputs num_outputs = Inr s"
  then obtain ins outs where len: "length s = 2"
    and top: "s ! 0 = top_level maxpat_path dsp_name"
    and kinds: "map kind (boxes (s ! 1)) =
           Codebox_tilde codebox_code # map in_stub ins @ map out_stub outs @
           concat (map (\<lambda>d. [setter_box repr d, display_box d]) items)"
    by (rule create_rnbo_patch_Inr)
  show "length s = 2" by (rule len)
  show "path (s ! 0) = Some maxpat_path" by (simp add: top top_level_def)
  show "map kind (boxes (s ! 0)) =
          [Comment ''Faust generated RNBO patch, Copyright (c) 2023 Grame'',
           Textbox ''ezdac~'' [],
           Rnbo [(''saved_object_attributes'',
                  JObj [(''optimization'', JStr ''O3''), (''title'', JStr dsp_name)])] 1]"
    by (simp add: top top_level_def)
  show "lines (s ! 0) = []" by (simp add: top top_level_def)
  show "map kind (take 1 (boxes (s ! 1))) = [Codebox_tilde codebox_code]"
    using arg_cong [OF kinds, of "take 1"] by (simp add: take_map)
  show "filter is_codebox (map kind (boxes (s ! 1))) = [Codebox_tilde codebox_code]"
    unfolding kinds by (simp add: is_codebox_def)
next
  assume ok: "list_all descriptor_ok items \<and> py_range num_inputs \<noteq> Inl TypeError \<and>
    py_range num_outputs \<noteq> Inl TypeError"
  then obtain ins outs where "py_range num_inputs = Inr ins" "py_range num_outputs = Inr outs"
    by (cases "py_range num_inputs"; cases "py_range num_outputs")
       (auto simp: py_range_def split: json.splits)
  with ok show "\<exists>s. create_rnbo_patch layout repr maxpat_path dsp_name codebox_code items
             num_inputs num_outputs = Inr s"
    by (auto intro: create_rnbo_patch_ok)
qed

text \<open>With a boolean for the output count.\<close>

theorem fixed_topology_witness:
  "list_all descriptor_ok (synth_descriptors :: 'f json list) \<and>
   py_range (JInt 1 :: 'f json) \<noteq> Inl TypeError \<and> py_range (JBool True :: 'f json) \<noteq> Inl TypeError \<and>
   (\<exists>s. create_rnbo_patch (\<lambda>p. (0, 0, 0, 0)) (\<lambda>v. []) ''synth.maxpat'' ''synth''
           ''process'' (synth_descriptors :: 'f json list) (JInt 1) (JBool True) = Inr s \<and>
        length s = 2 \<and>
        map kind (boxes (s ! 0)) =
          [Comment ''Faust generated RNBO patch, Copyright (c) 2023 Grame'',
           Textbox ''ezdac~'' [],
           Rnbo [(''saved_object_attributes'',
                  JObj [(''optimization'', JStr ''O3''), (''title'', JStr ''synth'')])] 1] \<and>
        filter is_codebox (map kind (boxes (s ! 1))) = [Codebox_tilde ''process''])"
proof -
  note ok = synth_descriptors_ok [where 'f = 'f]
  have r1: "py_range (JInt 1 :: 'f json) \<noteq> Inl TypeError"
    and r2: "py_range (JBool True :: 'f json) \<noteq> Inl TypeError"
    by (simp_all add: py_range_def)
  note top = fixed_topology [of "\<lambda>p. (0, 0, 0, 0)" "\<lambda>v. []" "''synth.maxpat''" "''synth''"
      "''process''" "synth_descriptors :: 'f json list" "JInt 1" "JBool True"]
  from top [THEN conjunct2] ok r1 r2
  obtain s where run: "create_rnbo_patch (\<lambda>p. (0, 0, 0, 0)) (\<lambda>v. []) ''synth.maxpat'' ''synth''
           ''process'' (synth_descriptors :: 'f json list) (JInt 1) (JBool True) = Inr s"
    by blast
  from top [THEN conjunct1, rule_format, OF run] run ok r1 r2 show ?thesis
    by (intro conjI exI [of _ s]) simp_all
qed



section \<open>The extractor on a store of objects\<close>

text \<open>
  Whether the extractor changes its argument cannot be read off a function on values.
  Here the manifest lives in a store, as Python has it: numbers, strings and \<^verbatim>\<open>None\<close> are
  values, a list or a dictionary is an object of the store, known by its address, and a
  value can refer to one.  The store is a list of objects and an address an index into
  it; a new object goes to the end.  Python has no reference to an object that does not
  exist, so an address read from the store is within it.
\<close>

datatype 'f val = VNone | VBool bool | VInt int | VFloat 'f | VStr string | VRef nat

datatype 'f obj = ODict "(string \<times> 'f val) list" | OList "'f val list"

text \<open>The operations of Python that the extractor uses, on the store.\<close>

definition alloc :: "'f obj \<Rightarrow> 'f obj list \<Rightarrow> nat \<times> 'f obj list" where
  "alloc ob h = (length h, h @ [ob])"

definition h_get :: "'f obj list \<Rightarrow> 'f val \<Rightarrow> string \<Rightarrow> 'f val \<Rightarrow> py_error + 'f val" where
  "h_get h x key dflt =
     (case x of
        VRef a \<Rightarrow>
          (case h ! a of
             ODict kvs \<Rightarrow> (case map_of kvs key of Some v \<Rightarrow> Inr v | None \<Rightarrow> Inr dflt)
           | OList vs \<Rightarrow> Inl AttributeError)
      | _ \<Rightarrow> Inl AttributeError)"

definition h_in :: "'f obj list \<Rightarrow> string \<Rightarrow> 'f val \<Rightarrow> py_error + bool" where
  "h_in h key x =
     (case x of
        VRef a \<Rightarrow>
          (case h ! a of
             ODict kvs \<Rightarrow> Inr (key \<in> set (map fst kvs))
           | OList vs \<Rightarrow> Inr (VStr key \<in> set vs))
      | VStr s \<Rightarrow> Inr (substring key s)
      | _ \<Rightarrow> Inl TypeError)"

definition h_getitem :: "'f obj list \<Rightarrow> 'f val \<Rightarrow> string \<Rightarrow> py_error + 'f val" where
  "h_getitem h x key =
     (case x of
        VRef a \<Rightarrow>
          (case h ! a of
             ODict kvs \<Rightarrow> (case map_of kvs key of Some v \<Rightarrow> Inr v | None \<Rightarrow> Inl KeyError)
           | OList vs \<Rightarrow> Inl TypeError)
      | _ \<Rightarrow> Inl TypeError)"

text \<open>
  A \<^verbatim>\<open>for\<close> loop asks for the item at its current position each time round, so a list
  that grows while the loop runs gives up the new items too.
\<close>

definition h_next :: "'f obj list \<Rightarrow> 'f val \<Rightarrow> nat \<Rightarrow> py_error + 'f val option" where
  "h_next h x i =
     (case x of
        VRef a \<Rightarrow>
          (case h ! a of
             OList vs \<Rightarrow> Inr (if i < length vs then Some (vs ! i) else None)
           | ODict kvs \<Rightarrow> Inr (if i < length kvs then Some (VStr (fst (kvs ! i))) else None))
      | VStr s \<Rightarrow> Inr (if i < length s then Some (VStr [s ! i]) else None)
      | _ \<Rightarrow> Inl TypeError)"

text \<open>
  \<^verbatim>\<open>append\<close> and \<^verbatim>\<open>extend\<close> change the list object at an address.  The extractor calls
  them on lists only; on anything else the model leaves the store as it is.
\<close>

definition h_append :: "nat \<Rightarrow> 'f val \<Rightarrow> 'f obj list \<Rightarrow> 'f obj list" where
  "h_append a v h = (case h ! a of OList vs \<Rightarrow> h[a := OList (vs @ [v])] | ODict kvs \<Rightarrow> h)"

definition h_extend :: "nat \<Rightarrow> 'f val \<Rightarrow> 'f obj list \<Rightarrow> 'f obj list" where
  "h_extend a other h =
     (case (h ! a, other) of
        (OList vs, VRef b) \<Rightarrow> (case h ! b of OList ws \<Rightarrow> h[a := OList (vs @ ws)] | ODict kvs \<Rightarrow> h)
      | _ \<Rightarrow> h)"

definition h_has_min_max_step :: "'f obj list \<Rightarrow> 'f val \<Rightarrow> py_error + bool" where
  "h_has_min_max_step h item =
     (case h_in h ''min'' item of
        Inl e \<Rightarrow> Inl e
      | Inr False \<Rightarrow> Inr False
      | Inr True \<Rightarrow>
          (case h_in h ''max'' item of
             Inl e \<Rightarrow> Inl e
           | Inr False \<Rightarrow> Inr False
           | Inr True \<Rightarrow> h_in h ''step'' item))"

text \<open>
  The \<^verbatim>\<open>if\<close> and \<^verbatim>\<open>elif\<close> of the loop body: a new dictionary for the descriptor, appended
  to \<^verbatim>\<open>info_list\<close>.
\<close>

definition h_emit ::
  "'f obj list \<Rightarrow> 'f val \<Rightarrow> 'f val \<Rightarrow> 'f val \<Rightarrow> nat \<Rightarrow> py_error + 'f obj list" where
  "h_emit h item shortname item_type info_list =
     (if item_type \<in> set [VStr ''button'', VStr ''checkbox''] then
        (case alloc (ODict [(''shortname'', shortname), (''type'', item_type),
                            (''init'', VInt 0), (''min'', VInt 0), (''max'', VInt 1),
                            (''step'', VInt 1)]) h of
           (d, h1) \<Rightarrow> Inr (h_append info_list (VRef d) h1))
      else
        (case h_has_min_max_step h item of
           Inl e \<Rightarrow> Inl e
         | Inr False \<Rightarrow> Inr h
         | Inr True \<Rightarrow>
        (case h_get h item ''init'' (VInt 0) of
           Inl e \<Rightarrow> Inl e
         | Inr init_value \<Rightarrow>
        (case h_getitem h item ''min'' of
           Inl e \<Rightarrow> Inl e
         | Inr min_value \<Rightarrow>
        (case h_getitem h item ''max'' of
           Inl e \<Rightarrow> Inl e
         | Inr max_value \<Rightarrow>
        (case h_getitem h item ''step'' of
           Inl e \<Rightarrow> Inl e
         | Inr step_value \<Rightarrow>
        (case alloc (ODict [(''shortname'', shortname), (''type'', item_type),
                            (''init'', init_value), (''min'', min_value),
                            (''max'', max_value), (''step'', step_value)]) h of
           (d, h1) \<Rightarrow> Inr (h_append info_list (VRef d) h1))))))))"

text \<open>
  \<^verbatim>\<open>extract_from_ui\<close> and its loop.  A store can hold a structure that contains itself,
  on which the recursion does not end, so the functions count their calls down from a
  bound \<open>n\<close> and return \<open>None\<close> when the bound is used up.  What they return otherwise is
  the store as the call leaves it, with the exception or the value returned.
\<close>

fun h_extract_from_ui ::
    "nat \<Rightarrow> 'f obj list \<Rightarrow> 'f val \<Rightarrow> ('f obj list \<times> (py_error + 'f val)) option"
  and h_for_item ::
    "nat \<Rightarrow> 'f obj list \<Rightarrow> 'f val \<Rightarrow> nat \<Rightarrow> nat \<Rightarrow> ('f obj list \<times> (py_error + 'f val)) option"
where
  "h_extract_from_ui 0 h ui = None"
| "h_extract_from_ui (Suc n) h ui =
     (case alloc (OList []) h of (info_list, h1) \<Rightarrow> h_for_item n h1 ui 0 info_list)"
| "h_for_item 0 h ui i info_list = None"
| "h_for_item (Suc n) h ui i info_list =
     (case h_next h ui i of
        Inl e \<Rightarrow> Some (h, Inl e)
      | Inr None \<Rightarrow> Some (h, Inr (VRef info_list))
      | Inr (Some item) \<Rightarrow>
     (case h_get h item ''shortname'' (VStr '''') of
        Inl e \<Rightarrow> Some (h, Inl e)
      | Inr shortname \<Rightarrow>
     (case h_get h item ''type'' (VStr '''') of
        Inl e \<Rightarrow> Some (h, Inl e)
      | Inr item_type \<Rightarrow>
     (case h_emit h item shortname item_type info_list of
        Inl e \<Rightarrow> Some (h, Inl e)
      | Inr h2 \<Rightarrow>
     (case h_in h2 ''items'' item of
        Inl e \<Rightarrow> Some (h2, Inl e)
      | Inr False \<Rightarrow> h_for_item n h2 ui (Suc i) info_list
      | Inr True \<Rightarrow>
     (case h_getitem h2 item ''items'' of
        Inl e \<Rightarrow> Some (h2, Inl e)
      | Inr sub \<Rightarrow>
     (case h_extract_from_ui n h2 sub of
        None \<Rightarrow> None
      | Some (h3, Inl e) \<Rightarrow> Some (h3, Inl e)
      | Some (h3, Inr nested) \<Rightarrow>
          h_for_item n (h_extend info_list nested h3) ui (Suc i) info_list)))))))"

definition h_extract_items_info ::
  "nat \<Rightarrow> 'f obj list \<Rightarrow> 'f val \<Rightarrow> ('f obj list \<times> (py_error + 'f val)) option" where
  "h_extract_items_info n h json_data =
     (case h_in h ''ui'' json_data of
        Inl e \<Rightarrow> Some (h, Inl e)
      | Inr True \<Rightarrow>
          (case h_getitem h json_data ''ui'' of
             Inl e \<Rightarrow> Some (h, Inl e)
           | Inr ui_section \<Rightarrow> h_extract_from_ui n h ui_section)
      | Inr False \<Rightarrow> (case alloc (OList []) h of (a, h1) \<Rightarrow> Some (h1, Inr (VRef a))))"

subsection \<open>What a call may change\<close>

text \<open>
  \<open>unchanged_except A h h'\<close>: every object of \<open>h\<close> is at its address in \<open>h'\<close>, the same
  as before but for the addresses in \<open>A\<close>.
\<close>

definition unchanged_except :: "nat set \<Rightarrow> 'f obj list \<Rightarrow> 'f obj list \<Rightarrow> bool" where
  "unchanged_except A h h' \<longleftrightarrow>
     length h \<le> length h' \<and> (\<forall>a < length h. a \<notin> A \<longrightarrow> h' ! a = h ! a)"

lemma unchanged_refl [simp]: "unchanged_except A h h"
  by (simp add: unchanged_except_def)

lemma unchanged_trans:
  "unchanged_except A h h' \<Longrightarrow> unchanged_except A h' h'' \<Longrightarrow> unchanged_except A h h''"
  by (auto simp: unchanged_except_def)

lemma unchanged_mono: "unchanged_except A h h' \<Longrightarrow> A \<subseteq> B \<Longrightarrow> unchanged_except B h h'"
  by (auto simp: unchanged_except_def)

lemma unchanged_alloc: "alloc ob h = (a, h1) \<Longrightarrow> unchanged_except A h h1"
  by (auto simp: alloc_def unchanged_except_def nth_append)

lemma unchanged_append: "unchanged_except {a} h (h_append a v h)"
  by (auto simp: h_append_def unchanged_except_def split: obj.splits)

lemma unchanged_extend: "unchanged_except {a} h (h_extend a v h)"
  by (auto simp: h_extend_def unchanged_except_def split: obj.splits val.splits)

lemma unchanged_emit:
  assumes "h_emit h item shortname item_type info = Inr h2"
  shows "unchanged_except {info} h h2"
proof -
  have *: "unchanged_except {info} h (h_append info v (h @ [ob]))" for v ob
    by (rule unchanged_trans [of _ _ "h @ [ob]"])
       (simp_all add: unchanged_append, simp add: unchanged_except_def nth_append)
  from assms show ?thesis
    by (auto simp: h_emit_def alloc_def * split: if_splits sum.splits bool.splits)
qed

lemma frame_both:
  "(\<forall>(h :: 'f obj list) ui h' r.
       h_extract_from_ui n h ui = Some (h', r) \<longrightarrow> unchanged_except {} h h') \<and>
   (\<forall>(h :: 'f obj list) ui i info h' r.
       h_for_item n h ui i info = Some (h', r) \<longrightarrow> unchanged_except {info} h h')"
proof (induction n)
  case 0
  show ?case by simp
next
  case (Suc n)
  have ex: "unchanged_except {} h h'" if "h_extract_from_ui (Suc n) h ui = Some (h', r)"
    for h :: "'f obj list" and ui h' r
  proof -
    from that have run: "h_for_item n (h @ [OList []]) ui 0 (length h) = Some (h', r)"
      by (simp add: alloc_def)
    with Suc have u: "unchanged_except {length h} (h @ [OList []]) h'" by blast
    show ?thesis using u by (auto simp: unchanged_except_def nth_append)
  qed
  have loop: "unchanged_except {info} h h'"
    if run: "h_for_item (Suc n) h ui i info = Some (h', r)"
    for h :: "'f obj list" and ui i info h' r
  proof (cases "h_next h ui i")
    case (Inl e)
    with run show ?thesis by simp
  next
    case (Inr nxt)
    show ?thesis
    proof (cases nxt)
      case None
      with run Inr show ?thesis by simp
    next
      case (Some item)
      note nx = Inr [unfolded Some]
      show ?thesis
      proof (cases "h_get h item ''shortname'' (VStr '''')")
        case (Inl e)
        with run nx show ?thesis by simp
      next
        case sn: (Inr shortname)
        show ?thesis
        proof (cases "h_get h item ''type'' (VStr '''')")
          case (Inl e)
          with run nx sn show ?thesis by simp
        next
          case ty: (Inr item_type)
          show ?thesis
          proof (cases "h_emit h item shortname item_type info")
            case (Inl e)
            with run nx sn ty show ?thesis by simp
          next
            case em: (Inr h2)
            then have u2: "unchanged_except {info} h h2" by (rule unchanged_emit)
            show ?thesis
            proof (cases "h_in h2 ''items'' item")
              case (Inl e)
              with run nx sn ty em u2 show ?thesis by simp
            next
              case has: (Inr b)
              show ?thesis
              proof (cases b)
                case False
                with run nx sn ty em has
                have "h_for_item n h2 ui (Suc i) info = Some (h', r)" by simp
                with Suc have "unchanged_except {info} h2 h'" by blast
                with u2 show ?thesis by (rule unchanged_trans)
              next
                case True
                show ?thesis
                proof (cases "h_getitem h2 item ''items''")
                  case (Inl e)
                  with run nx sn ty em has True u2 show ?thesis by simp
                next
                  case sub: (Inr sub)
                  show ?thesis
                  proof (cases "h_extract_from_ui n h2 sub")
                    case None
                    with run nx sn ty em has True sub show ?thesis by simp
                  next
                    case (Some res)
                    obtain h3 r3 where res: "res = (h3, r3)" by (cases res)
                    with Some Suc have "unchanged_except {} h2 h3" by blast
                    then have u3: "unchanged_except {info} h2 h3"
                      by (rule unchanged_mono) simp
                    show ?thesis
                    proof (cases r3)
                      case (Inl e)
                      with run nx sn ty em has True sub Some res have "h' = h3" by simp
                      with u2 u3 show ?thesis by (auto intro: unchanged_trans)
                    next
                      case (Inr nested)
                      with run nx sn ty em has True sub Some res
                      have "h_for_item n (h_extend info nested h3) ui (Suc i) info = Some (h', r)"
                        by simp
                      with Suc have "unchanged_except {info} (h_extend info nested h3) h'" by blast
                      with u2 u3 unchanged_extend [of info h3 nested] show ?thesis
                        by (blast intro: unchanged_trans)
                    qed
                  qed
                qed
              qed
            qed
          qed
        qed
      qed
    qed
  qed
  from ex loop show ?case by blast
qed

subsection \<open>A manifest in the store\<close>

text \<open>
  \<open>rep A h j v\<close>: in the store \<open>h\<close> the value \<open>v\<close> is the JSON value \<open>j\<close>, and reading it
  visits addresses of \<open>A\<close> only.
\<close>

primrec rep :: "nat set \<Rightarrow> 'f obj list \<Rightarrow> 'f json \<Rightarrow> 'f val \<Rightarrow> bool" where
  "rep A h JNull v = (v = VNone)"
| "rep A h (JBool x) v = (v = VBool x)"
| "rep A h (JInt i) v = (v = VInt i)"
| "rep A h (JFloat x) v = (v = VFloat x)"
| "rep A h (JStr s) v = (v = VStr s)"
| "rep A h (JArr js) v =
     (case v of
        VRef a \<Rightarrow>
          a \<in> A \<and>
          (case h ! a of
             OList vs \<Rightarrow> list_all2 (\<lambda>v p. p v) vs (map (rep A h) js)
           | ODict kvs \<Rightarrow> False)
      | _ \<Rightarrow> False)"
| "rep A h (JObj kjs) v =
     (case v of
        VRef a \<Rightarrow>
          a \<in> A \<and>
          (case h ! a of
             ODict kvs \<Rightarrow>
               map fst kvs = map fst kjs \<and>
               list_all2 (\<lambda>v p. p v) (map snd kvs) (map snd (map (map_prod id (rep A h)) kjs))
           | OList vs \<Rightarrow> False)
      | _ \<Rightarrow> False)"

lemma rep_JArr:
  "rep A h (JArr js) v \<longleftrightarrow>
     (\<exists>a vs. v = VRef a \<and> a \<in> A \<and> h ! a = OList vs \<and> list_all2 (\<lambda>v j. rep A h j v) vs js)"
  by (auto simp: list_all2_map2 split: val.splits obj.splits)

lemma rep_JObj:
  "rep A h (JObj kjs) v \<longleftrightarrow>
     (\<exists>a kvs. v = VRef a \<and> a \<in> A \<and> h ! a = ODict kvs \<and> map fst kvs = map fst kjs \<and>
        list_all2 (\<lambda>v j. rep A h j v) (map snd kvs) (map snd kjs))"
  by (auto simp: list_all2_map2 list_all2_map1 comp_def split: val.splits obj.splits)

declare rep.simps(6,7) [simp del]

declare rep_JArr [simp] rep_JObj [simp]

lemma in_keys_iff: "k \<in> fst ` set kvs \<longleftrightarrow> map_of kvs k \<noteq> None"
  by (simp add: map_of_eq_None_iff)

lemma h_in_dict: "h ! a = ODict kvs \<Longrightarrow> h_in h k (VRef a) = Inr (map_of kvs k \<noteq> None)"
  by (simp add: h_in_def in_keys_iff)

lemma h_get_dict:
  "h ! a = ODict kvs \<Longrightarrow>
     h_get h (VRef a) k d = Inr (case map_of kvs k of Some x \<Rightarrow> x | None \<Rightarrow> d)"
  by (simp add: h_get_def split: option.splits)

lemma h_getitem_dict:
  "h ! a = ODict kvs \<Longrightarrow>
     h_getitem h (VRef a) k = (case map_of kvs k of Some x \<Rightarrow> Inr x | None \<Rightarrow> Inl KeyError)"
  by (simp add: h_getitem_def)

lemma h_has_min_max_step_dict:
  "h ! a = ODict kvs \<Longrightarrow>
     h_has_min_max_step h (VRef a) =
       Inr (map_of kvs ''min'' \<noteq> None \<and> map_of kvs ''max'' \<noteq> None \<and>
            map_of kvs ''step'' \<noteq> None)"
  by (simp add: h_has_min_max_step_def h_in_dict split: bool.splits)

text \<open>
  One turn of the loop up to its recursive calls, for the proofs: the loop is over, or it
  goes on with the next item, or it first goes into the nested items.
\<close>

datatype 'f turn =
    Done "'f obj list \<times> (py_error + 'f val)"
  | Continue "'f obj list"
  | Recurse "'f obj list" "'f val"

definition h_turn :: "'f obj list \<Rightarrow> 'f val \<Rightarrow> nat \<Rightarrow> nat \<Rightarrow> 'f turn" where
  "h_turn h ui i info_list =
     (case h_next h ui i of
        Inl e \<Rightarrow> Done (h, Inl e)
      | Inr None \<Rightarrow> Done (h, Inr (VRef info_list))
      | Inr (Some item) \<Rightarrow>
     (case h_get h item ''shortname'' (VStr '''') of
        Inl e \<Rightarrow> Done (h, Inl e)
      | Inr shortname \<Rightarrow>
     (case h_get h item ''type'' (VStr '''') of
        Inl e \<Rightarrow> Done (h, Inl e)
      | Inr item_type \<Rightarrow>
     (case h_emit h item shortname item_type info_list of
        Inl e \<Rightarrow> Done (h, Inl e)
      | Inr h2 \<Rightarrow>
     (case h_in h2 ''items'' item of
        Inl e \<Rightarrow> Done (h2, Inl e)
      | Inr False \<Rightarrow> Continue h2
      | Inr True \<Rightarrow>
     (case h_getitem h2 item ''items'' of
        Inl e \<Rightarrow> Done (h2, Inl e)
      | Inr sub \<Rightarrow> Recurse h2 sub))))))"

lemma h_for_item_Suc:
  "h_for_item (Suc n) h ui i info =
     (case h_turn h ui i info of
        Done x \<Rightarrow> Some x
      | Continue h2 \<Rightarrow> h_for_item n h2 ui (Suc i) info
      | Recurse h2 sub \<Rightarrow>
          (case h_extract_from_ui n h2 sub of
             None \<Rightarrow> None
           | Some (h3, Inl e) \<Rightarrow> Some (h3, Inl e)
           | Some (h3, Inr nested) \<Rightarrow> h_for_item n (h_extend info nested h3) ui (Suc i) info))"
  by (simp add: h_turn_def split: sum.splits option.splits bool.splits)

declare h_for_item.simps(2) [simp del]

lemma fuel_mono_both:
  "(\<forall>(h :: 'f obj list) ui x m. h_extract_from_ui n h ui = Some x \<longrightarrow> n \<le> m \<longrightarrow>
       h_extract_from_ui m h ui = Some x) \<and>
   (\<forall>(h :: 'f obj list) ui i info x m. h_for_item n h ui i info = Some x \<longrightarrow> n \<le> m \<longrightarrow>
       h_for_item m h ui i info = Some x)"
proof (induction n)
  case 0
  show ?case by simp
next
  case (Suc n)
  have ex: "h_extract_from_ui m h ui = Some x"
    if "h_extract_from_ui (Suc n) h ui = Some x" "Suc n \<le> m"
    for h :: "'f obj list" and ui x m
  proof -
    from that(2) obtain m' where m: "m = Suc m'" "n \<le> m'" by (cases m) auto
    from that(1) have "h_for_item n (h @ [OList []]) ui 0 (length h) = Some x"
      by (simp add: alloc_def)
    with Suc m(2) have "h_for_item m' (h @ [OList []]) ui 0 (length h) = Some x" by blast
    then show ?thesis by (simp add: m alloc_def)
  qed
  have loop: "h_for_item m h ui i info = Some x"
    if run: "h_for_item (Suc n) h ui i info = Some x" and "Suc n \<le> m"
    for h :: "'f obj list" and ui i info x m
  proof -
    from that(2) obtain m' where m: "m = Suc m'" "n \<le> m'" by (cases m) auto
    from Suc m(2) have 1: "\<And>(h :: 'f obj list) ui x. h_extract_from_ui n h ui = Some x \<Longrightarrow>
        h_extract_from_ui m' h ui = Some x" by blast
    from Suc m(2) have 2: "\<And>(h :: 'f obj list) ui i info x. h_for_item n h ui i info = Some x \<Longrightarrow>
        h_for_item m' h ui i info = Some x" by blast
    show ?thesis
    proof (cases "h_turn h ui i info")
      case (Done y)
      with run show ?thesis by (simp add: m h_for_item_Suc)
    next
      case (Continue h2)
      with run have "h_for_item n h2 ui (Suc i) info = Some x" by (simp add: h_for_item_Suc)
      from 2 [OF this] Continue show ?thesis by (simp add: m h_for_item_Suc)
    next
      case (Recurse h2 sub)
      with run obtain h3 r3 where sub: "h_extract_from_ui n h2 sub = Some (h3, r3)"
        by (cases "h_extract_from_ui n h2 sub") (auto simp: h_for_item_Suc)
      note sub' = 1 [OF sub]
      show ?thesis
      proof (cases r3)
        case (Inl e)
        with run Recurse sub sub' show ?thesis by (auto simp: m h_for_item_Suc)
      next
        case (Inr nested)
        with run Recurse sub
        have "h_for_item n (h_extend info nested h3) ui (Suc i) info = Some x"
          by (simp add: h_for_item_Suc)
        from 2 [OF this] Recurse sub' Inr show ?thesis by (auto simp: m h_for_item_Suc)
      qed
    qed
  qed
  from ex loop show ?case by blast
qed

lemma h_extract_from_ui_mono:
  "h_extract_from_ui n h ui = Some x \<Longrightarrow> n \<le> m \<Longrightarrow> h_extract_from_ui m h ui = Some x"
  using fuel_mono_both [of n] by blast

lemma h_for_item_mono:
  "h_for_item n h ui i info = Some x \<Longrightarrow> n \<le> m \<Longrightarrow> h_for_item m h ui i info = Some x"
  using fuel_mono_both [of n] by blast

subsection \<open>The calls return on a manifest\<close>

lemma for_item_acc:
  "for_item items acc = (case for_item items [] of Inl e \<Rightarrow> Inl e | Inr ds \<Rightarrow> Inr (acc @ ds))"
proof (induction items arbitrary: acc)
  case Nil
  show ?case by simp
next
  case (Cons item rest)
  note IH = Cons.IH
  show ?case
  proof (cases "\<exists>kvs. item = JObj kvs")
    case False
    then show ?thesis by (simp add: for_item_not_dict)
  next
    case True
    then obtain kvs where item: "item = JObj kvs" ..
    show ?thesis
    proof (cases "case map_of kvs ''items'' of None \<Rightarrow> Inr [] | Some sub \<Rightarrow> extract_from_ui sub")
      case (Inl e)
      then show ?thesis by (simp add: item for_item_dict)
    next
      case (Inr nested)
      have "for_item (item # rest) acc =
          for_item rest (acc @ control_descriptor (JObj kvs) @ nested)"
        using Inr by (simp add: item for_item_dict)
      moreover have "for_item (item # rest) [] =
          for_item rest (control_descriptor (JObj kvs) @ nested)"
        using Inr by (simp add: item for_item_dict)
      ultimately show ?thesis
        using IH [of "acc @ control_descriptor (JObj kvs) @ nested"]
          IH [of "control_descriptor (JObj kvs) @ nested"]
        by (simp split: sum.splits)
    qed
  qed
qed

lemma rep_frame:
  "(\<And>a. a \<in> A \<Longrightarrow> h' ! a = h ! a) \<Longrightarrow> rep A h j v \<Longrightarrow> rep A h' j v"
proof (induction j arbitrary: v)
  case (JArr js)
  from JArr.prems(2) obtain a vs where v: "v = VRef a" "a \<in> A" "h ! a = OList vs"
    and all: "list_all2 (\<lambda>v j. rep A h j v) vs js"
    by (auto simp: rep_JArr)
  from all have "list_all2 (\<lambda>v j. rep A h' j v) vs js"
    by (rule list.rel_mono_strong) (use JArr.IH JArr.prems(1) in blast)
  with v JArr.prems(1) show ?case by (auto simp: rep_JArr)
next
  case (JObj kjs)
  from JObj.prems(2) obtain a kvs where v: "v = VRef a" "a \<in> A" "h ! a = ODict kvs"
    and keys: "map fst kvs = map fst kjs"
    and all: "list_all2 (\<lambda>v j. rep A h j v) (map snd kvs) (map snd kjs)"
    by (auto simp: rep_JObj)
  have "rep A h' y x" if "x \<in> set (map snd kvs)" "y \<in> set (map snd kjs)" "rep A h y x" for x y
  proof -
    from that(2) obtain kj where "kj \<in> set kjs" "y = snd kj" by auto
    have "snd kj \<in> Basic_BNFs.snds kj" by (cases kj) simp
    with \<open>kj \<in> set kjs\<close> \<open>y = snd kj\<close> JObj.IH JObj.prems(1) that(3) show ?thesis
      by blast
  qed
  note step = this
  from all have "list_all2 (\<lambda>v j. rep A h' j v) (map snd kvs) (map snd kjs)"
    by (rule list.rel_mono_strong) (rule step)
  with v keys JObj.prems(1) show ?case by (auto simp: rep_JObj)
qed simp_all

lemma rep_unchanged:
  assumes "unchanged_except B h h'" "b \<le> length h" "B \<inter> {..<b} = {}" "rep {..<b} h j v"
  shows "rep {..<b} h' j v"
proof (rule rep_frame [OF _ assms(4)])
  fix a assume "a \<in> {..<b}"
  then have "a < length h" "a \<notin> B" using assms(2,3) by auto
  with assms(1) show "h' ! a = h ! a" by (simp add: unchanged_except_def)
qed

lemma rep_VStr: "rep A h j (VStr s) \<longleftrightarrow> j = JStr s"
  by (cases j) auto

lemma rep_mem_str:
  "list_all2 (\<lambda>v j. rep A h j v) vs js \<Longrightarrow> VStr k \<in> set vs \<longleftrightarrow> JStr k \<in> set js"
  by (induction rule: list_all2_induct) (auto simp: rep_VStr)

lemma rep_lookup:
  "map fst kvs = map fst kjs \<Longrightarrow> list_all2 (\<lambda>v j. rep A h j v) (map snd kvs) (map snd kjs) \<Longrightarrow>
     rel_option (\<lambda>v j. rep A h j v) (map_of kvs k) (map_of kjs k)"
proof (induction kvs arbitrary: kjs)
  case Nil
  then show ?case by simp
next
  case (Cons kv kvs)
  then obtain kj kjs' where "kjs = kj # kjs'" by (cases kjs) auto
  with Cons show ?case by (cases kv; cases kj) auto
qed

lemma in_corr: "rep A h j v \<Longrightarrow> h_in h k v = py_in k j"
  by (cases j)
     (auto simp: h_in_def py_in_def rep_mem_str dest: arg_cong [where f = set])

lemma getitem_corr:
  "rep A h j v \<Longrightarrow> rel_sum (=) (\<lambda>v j. rep A h j v) (h_getitem h v k) (py_getitem j k)"
proof (cases j)
  case (JObj kjs)
  assume "rep A h j v"
  with JObj obtain a kvs where v: "v = VRef a" "h ! a = ODict kvs"
    and keys: "map fst kvs = map fst kjs"
    and all: "list_all2 (\<lambda>v j. rep A h j v) (map snd kvs) (map snd kjs)"
    by (auto simp: rep_JObj)
  from rep_lookup [OF keys all, of k] v JObj show ?thesis
    by (cases "map_of kvs k"; cases "map_of kjs k") (auto simp: h_getitem_def)
qed (auto simp: h_getitem_def py_getitem_def rep_JArr)

lemma next_corr:
  assumes "rep A h j v"
  shows "rel_sum (=) (\<lambda>nx its. if i < length its
            then \<exists>x. nx = Some x \<and> rep A h (its ! i) x else nx = None)
          (h_next h v i) (py_iter j)"
proof (cases j)
  case (JArr js)
  with assms obtain a vs where "v = VRef a" "h ! a = OList vs"
    "list_all2 (\<lambda>v j. rep A h j v) vs js"
    by (auto simp: rep_JArr)
  with JArr show ?thesis
    by (auto simp: h_next_def py_iter_def list_all2_conv_all_nth)
next
  case (JObj kjs)
  with assms obtain a kvs where v: "v = VRef a" "h ! a = ODict kvs"
    and keys: "map fst kvs = map fst kjs"
    by (auto simp: rep_JObj)
  from keys have len: "length kvs = length kjs" by (rule map_eq_imp_length_eq)
  have "fst (kvs ! i) = fst (kjs ! i)" if "i < length kjs"
    using that keys len by (metis nth_map)
  with v JObj len show ?thesis
    by (auto simp: h_next_def py_iter_def)
next
  case (JStr s)
  with assms show ?thesis by (auto simp: h_next_def py_iter_def)
qed (use assms in \<open>auto simp: h_next_def py_iter_def\<close>)

lemma get_not_dict:
  "rep A h j v \<Longrightarrow> \<forall>kjs. j \<noteq> JObj kjs \<Longrightarrow> h_get h v k d = Inl AttributeError"
  by (cases j) (auto simp: h_get_def rep_JArr)

lemma emit_dict:
  assumes "h ! a = ODict kvs"
  shows "\<exists>h2. h_emit h (VRef a) shortname item_type info = Inr h2"
  using assms
  by (cases "map_of kvs ''min''"; cases "map_of kvs ''max''"; cases "map_of kvs ''step''")
     (auto simp: h_emit_def h_has_min_max_step_dict h_get_dict h_getitem_dict alloc_def)

lemma turn_dict:
  assumes "h_next h ui i = Inr (Some (VRef a))" and "h ! a = ODict kvs"
    and "a < length h" and "a \<noteq> info"
  shows "\<exists>h2. unchanged_except {info} h h2 \<and>
           h_turn h ui i info =
             (case map_of kvs ''items'' of None \<Rightarrow> Continue h2 | Some sub \<Rightarrow> Recurse h2 sub)"
proof -
  let ?sn = "case map_of kvs ''shortname'' of Some x \<Rightarrow> x | None \<Rightarrow> VStr ''''"
  let ?ty = "case map_of kvs ''type'' of Some x \<Rightarrow> x | None \<Rightarrow> VStr ''''"
  have sn: "h_get h (VRef a) ''shortname'' (VStr '''') = Inr ?sn"
    and ty: "h_get h (VRef a) ''type'' (VStr '''') = Inr ?ty"
    using assms(2) by (simp_all add: h_get_dict)
  from emit_dict [OF assms(2)] obtain h2 where em: "h_emit h (VRef a) ?sn ?ty info = Inr h2"
    by blast
  then have u: "unchanged_except {info} h h2" by (rule unchanged_emit)
  with assms(2-4) have a2: "h2 ! a = ODict kvs" by (simp add: unchanged_except_def)
  have "h_turn h ui i info =
             (case map_of kvs ''items'' of None \<Rightarrow> Continue h2 | Some sub \<Rightarrow> Recurse h2 sub)"
    using assms(1) sn ty em a2
    by (cases "map_of kvs ''items''")
       (auto simp: h_turn_def h_in_dict h_getitem_dict)
  with u show ?thesis by blast
qed

lemma h_for_item_returns:
  fixes h :: "'f obj list"
  assumes "rep {..<b} h j ui" and "py_iter j = Inr its" and "b \<le> info" and "info < length h"
  shows "\<exists>n h' r. h_for_item n h ui i info = Some (h', r) \<and>
           (case for_item (drop i its) [] of Inl e \<Rightarrow> r = Inl e | Inr ds \<Rightarrow> r = Inr (VRef info))"
  using assms
proof (induction "weights (drop i its)" arbitrary: h j ui its i info rule: less_induct)
  case less
  note rep_ui = less.prems(1) and iter = less.prems(2) and b = less.prems(3)
    and info = less.prems(4)
  from next_corr [OF rep_ui, of i] iter
  have nx: "if i < length its
      then \<exists>x. h_next h ui i = Inr (Some x) \<and> rep {..<b} h (its ! i) x
      else h_next h ui i = Inr None"
    by (cases "h_next h ui i") (auto split: if_splits)
  show ?case
  proof (cases "i < length its")
    case False
    with nx have "h_turn h ui i info = Done (h, Inr (VRef info))"
      by (simp add: h_turn_def)
    then have "h_for_item (Suc 0) h ui i info = Some (h, Inr (VRef info))"
      by (simp add: h_for_item_Suc)
    with False show ?thesis by force
  next
    case True
    with nx obtain v where v: "h_next h ui i = Inr (Some v)" and rep_v: "rep {..<b} h (its ! i) v"
      by auto
    have dr: "drop i its = its ! i # drop (Suc i) its"
      using True by (simp add: Cons_nth_drop_Suc)
    have rest: "weights (drop (Suc i) its) < weights (drop i its)"
      by (simp add: dr)
    show ?thesis
    proof (cases "\<exists>kjs. its ! i = JObj kjs")
      case False
      with rep_v have "h_get h v ''shortname'' (VStr '''') = Inl AttributeError"
        by (auto intro: get_not_dict)
      with v have "h_turn h ui i info = Done (h, Inl AttributeError)"
        by (simp add: h_turn_def)
      then have "h_for_item (Suc 0) h ui i info = Some (h, Inl AttributeError)"
        by (simp add: h_for_item_Suc)
      moreover have "for_item (drop i its) [] = Inl AttributeError"
        using False by (simp add: dr for_item_not_dict)
      ultimately show ?thesis by force
    next
      case True
      then obtain kjs where item: "its ! i = JObj kjs" ..
      with rep_v obtain a kvs where a: "v = VRef a" "a < b" "h ! a = ODict kvs"
        and keys: "map fst kvs = map fst kjs"
        and vals: "list_all2 (\<lambda>v j. rep {..<b} h j v) (map snd kvs) (map snd kjs)"
        by auto
      from a b info have a': "a < length h" "a \<noteq> info" by simp_all
      from turn_dict [OF v [unfolded a(1)] a(3) a'] obtain h2 where
        u2: "unchanged_except {info} h h2" and
        turn: "h_turn h ui i info =
             (case map_of kvs ''items'' of None \<Rightarrow> Continue h2 | Some sub \<Rightarrow> Recurse h2 sub)"
        by blast
      have bh: "b \<le> length h" using b info by simp
      have disj: "{info} \<inter> {..<b} = {}" using b by simp
      have rep_ui2: "rep {..<b} h2 j ui" by (rule rep_unchanged [OF u2 bh disj rep_ui])
      have info2: "info < length h2" using u2 info by (simp add: unchanged_except_def)
      note look = rep_lookup [OF keys vals, of "''items''"]
      show ?thesis
      proof (cases "map_of kvs ''items''")
        case None
        with look have none: "map_of kjs ''items'' = None" by (cases "map_of kjs ''items''") auto
        from less.hyps [OF rest rep_ui2 iter b info2] obtain n h' r where
          run: "h_for_item n h2 ui (Suc i) info = Some (h', r)" and
          res: "case for_item (drop (Suc i) its) [] of Inl e \<Rightarrow> r = Inl e
                | Inr ds \<Rightarrow> r = Inr (VRef info)"
          by blast
        from turn None run have "h_for_item (Suc n) h ui i info = Some (h', r)"
          by (simp add: h_for_item_Suc)
        moreover have "for_item (drop i its) [] =
            for_item (drop (Suc i) its) (control_descriptor (JObj kjs))"
          using none by (simp add: dr item for_item_dict)
        ultimately show ?thesis
          using res for_item_acc [of "drop (Suc i) its" "control_descriptor (JObj kjs)"]
          by (auto split: sum.splits)
      next
        case (Some sv)
        with look obtain sj where sj: "map_of kjs ''items'' = Some sj"
          and rep_s: "rep {..<b} h sj sv"
          by (cases "map_of kjs ''items''") auto
        have rep_s2: "rep {..<b} h2 sj sv" by (rule rep_unchanged [OF u2 bh disj rep_s])
        let ?h21 = "h2 @ [OList []]"
        have u21: "unchanged_except {} h2 ?h21"
          by (simp add: unchanged_except_def nth_append)
        have bh2: "b \<le> length h2" using bh u2 by (simp add: unchanged_except_def)
        have rep_s21: "rep {..<b} ?h21 sj sv"
          by (rule rep_unchanged [OF u21 bh2 _ rep_s2]) simp
        have pure: "for_item (drop i its) [] =
            (case extract_from_ui sj of
               Inl e \<Rightarrow> Inl e
             | Inr nested \<Rightarrow>
                 for_item (drop (Suc i) its) (control_descriptor (JObj kjs) @ nested))"
          using sj by (simp add: dr item for_item_dict split: sum.splits)
        from turn Some have turn': "h_turn h ui i info = Recurse h2 sv" by simp
        show ?thesis
        proof (cases "py_iter sj")
          case (Inl e)
          with next_corr [OF rep_s21, of 0] have "h_next ?h21 sv 0 = Inl e"
            by (cases "h_next ?h21 sv 0") auto
          then have "h_turn ?h21 sv 0 (length h2) = Done (?h21, Inl e)"
            by (simp add: h_turn_def)
          then have "h_extract_from_ui (Suc (Suc 0)) h2 sv = Some (?h21, Inl e)"
            by (simp add: alloc_def h_for_item_Suc)
          with turn' have "h_for_item (Suc (Suc (Suc 0))) h ui i info = Some (?h21, Inl e)"
            by (simp add: h_for_item_Suc)
          moreover from Inl have "extract_from_ui sj = Inl e"
            by (simp add: extract_from_ui.simps)
          ultimately show ?thesis using pure by force
        next
          case (Inr its')
          have "weights its' \<le> Suc (weight sj)" using Inr by (rule weights_iter)
          moreover have "Suc (weight sj) < weight (JObj kjs)" using sj by (rule weight_map_of)
          ultimately have small: "weights (drop 0 its') < weights (drop i its)"
            by (simp add: dr item del: weight.simps)
          have "b \<le> length h2" by (rule bh2)
          moreover have "length h2 < length ?h21" by simp
          ultimately obtain n1 h3 r3 where
            run1: "h_for_item n1 ?h21 sv 0 (length h2) = Some (h3, r3)" and
            res1: "case for_item (drop 0 its') [] of Inl e \<Rightarrow> r3 = Inl e
                   | Inr ds \<Rightarrow> r3 = Inr (VRef (length h2))"
            using less.hyps [OF small rep_s21 Inr] by blast
          from run1 have ex1: "h_extract_from_ui (Suc n1) h2 sv = Some (h3, r3)"
            by (simp add: alloc_def)
          have ext: "extract_from_ui sj = for_item its' []"
            using Inr by (simp add: extract_from_ui.simps)
          show ?thesis
          proof (cases "for_item its' []")
            case (Inl e)
            with res1 have "r3 = Inl e" by simp
            with ex1 turn' have "h_for_item (Suc (Suc n1)) h ui i info = Some (h3, Inl e)"
              by (simp add: h_for_item_Suc)
            with pure ext Inl show ?thesis by force
          next
            case (Inr nested)
            with res1 have r3: "r3 = Inr (VRef (length h2))" by simp
            let ?h4 = "h_extend info (VRef (length h2)) h3"
            from ex1 frame_both [of "Suc n1"] have "unchanged_except {} h2 h3" by blast
            then have "unchanged_except {info} h2 h3" by (rule unchanged_mono) simp
            with u2 have "unchanged_except {info} h h3" by (rule unchanged_trans)
            then have u4: "unchanged_except {info} h ?h4"
              using unchanged_extend [of info h3 "VRef (length h2)"]
              by (rule unchanged_trans)
            have rep_ui4: "rep {..<b} ?h4 j ui" by (rule rep_unchanged [OF u4 bh disj rep_ui])
            have info4: "info < length ?h4" using u4 info by (simp add: unchanged_except_def)
            from less.hyps [OF rest rep_ui4 iter b info4] obtain n2 h' r where
              run2: "h_for_item n2 ?h4 ui (Suc i) info = Some (h', r)" and
              res2: "case for_item (drop (Suc i) its) [] of Inl e \<Rightarrow> r = Inl e
                     | Inr ds \<Rightarrow> r = Inr (VRef info)"
              by blast
            let ?N = "max (Suc n1) n2"
            from ex1 have "h_extract_from_ui ?N h2 sv = Some (h3, r3)"
              by (rule h_extract_from_ui_mono) simp
            moreover from run2 have "h_for_item ?N ?h4 ui (Suc i) info = Some (h', r)"
              by (rule h_for_item_mono) simp
            ultimately have "h_for_item (Suc ?N) h ui i info = Some (h', r)"
              using turn' r3 by (simp add: h_for_item_Suc)
            moreover have "for_item (drop i its) [] =
                for_item (drop (Suc i) its) (control_descriptor (JObj kjs) @ nested)"
              using pure ext Inr by simp
            ultimately show ?thesis
              using res2
                for_item_acc [of "drop (Suc i) its" "control_descriptor (JObj kjs) @ nested"]
              by (auto split: sum.splits)
          qed
        qed
      qed
    qed
  qed
qed

lemma h_extract_from_ui_returns:
  fixes h :: "'f obj list"
  assumes "rep {..<b} h j ui" and "b \<le> length h"
  shows "\<exists>n h' r. h_extract_from_ui n h ui = Some (h', r) \<and>
           (case extract_from_ui j of Inl e \<Rightarrow> r = Inl e
            | Inr ds \<Rightarrow> r = Inr (VRef (length h)))"
proof -
  let ?h1 = "h @ [OList []]"
  have "unchanged_except {} h ?h1" by (simp add: unchanged_except_def nth_append)
  from rep_unchanged [OF this assms(2) _ assms(1)] have rep1: "rep {..<b} ?h1 j ui" by simp
  show ?thesis
  proof (cases "py_iter j")
    case (Inl e)
    with next_corr [OF rep1, of 0] have "h_next ?h1 ui 0 = Inl e"
      by (cases "h_next ?h1 ui 0") auto
    then have "h_turn ?h1 ui 0 (length h) = Done (?h1, Inl e)"
      by (simp add: h_turn_def)
    then have "h_extract_from_ui (Suc (Suc 0)) h ui = Some (?h1, Inl e)"
      by (simp add: alloc_def h_for_item_Suc)
    moreover from Inl have "extract_from_ui j = Inl e" by (simp add: extract_from_ui.simps)
    ultimately have "h_extract_from_ui (Suc (Suc 0)) h ui = Some (?h1, Inl e) \<and>
        (case extract_from_ui j of Inl e' \<Rightarrow> (Inl e :: py_error + 'f val) = Inl e'
         | Inr ds \<Rightarrow> (Inl e :: py_error + 'f val) = Inr (VRef (length h)))"
      by (simp del: h_extract_from_ui.simps)
    then show ?thesis by blast
  next
    case (Inr its)
    have "length h < length ?h1" by simp
    from h_for_item_returns [OF rep1 Inr assms(2) this, of 0] obtain n h' r where
      run: "h_for_item n ?h1 ui 0 (length h) = Some (h', r)" and
      res: "case for_item (drop 0 its) [] of Inl e \<Rightarrow> r = Inl e
            | Inr ds \<Rightarrow> r = Inr (VRef (length h))"
      by blast
    from run have "h_extract_from_ui (Suc n) h ui = Some (h', r)" by (simp add: alloc_def)
    moreover from Inr have "extract_from_ui j = for_item its []"
      by (simp add: extract_from_ui.simps)
    ultimately have "h_extract_from_ui (Suc n) h ui = Some (h', r) \<and>
        (case extract_from_ui j of Inl e \<Rightarrow> r = Inl e
         | Inr ds \<Rightarrow> r = Inr (VRef (length h)))"
      using res by (simp del: h_extract_from_ui.simps)
    then show ?thesis by blast
  qed
qed

lemma h_extract_items_info_frame:
  assumes "h_extract_items_info n h m = Some (h', r)"
  shows "unchanged_except {} h h'"
proof (cases "h_in h ''ui'' m")
  case (Inl e)
  with assms show ?thesis by (simp add: h_extract_items_info_def)
next
  case (Inr present)
  show ?thesis
  proof (cases present)
    case False
    with assms Inr show ?thesis
      by (auto simp: h_extract_items_info_def alloc_def unchanged_except_def nth_append)
  next
    case True
    show ?thesis
    proof (cases "h_getitem h m ''ui''")
      case (Inl e)
      with assms Inr True show ?thesis by (simp add: h_extract_items_info_def)
    next
      case ui: (Inr ui)
      with assms Inr True have "h_extract_from_ui n h ui = Some (h', r)"
        by (simp add: h_extract_items_info_def)
      with frame_both [of n] show ?thesis by blast
    qed
  qed
qed

lemma unchanged_take: "unchanged_except {} h h' \<Longrightarrow> take (length h) h' = h"
  by (rule nth_equalityI) (simp_all add: unchanged_except_def)

lemma h_extract_items_info_returns:
  fixes h :: "'f obj list"
  assumes "rep {..<length h} h j m"
  shows "\<exists>n h' r. h_extract_items_info n h m = Some (h', r) \<and>
           (case extract_items_info j of Inl e \<Rightarrow> r = Inl e
            | Inr ds \<Rightarrow> r = Inr (VRef (length h)))"
proof -
  note inn = in_corr [OF assms, of "''ui''"]
  show ?thesis
  proof (cases "py_in ''ui'' j")
    case (Inl e)
    with inn show ?thesis by (simp add: h_extract_items_info_def extract_items_info_def)
  next
    case (Inr present)
    show ?thesis
    proof (cases present)
      case False
      with inn Inr show ?thesis
        by (simp add: h_extract_items_info_def extract_items_info_def alloc_def)
    next
      case True
      note gi = getitem_corr [OF assms, of "''ui''"]
      show ?thesis
      proof (cases "py_getitem j ''ui''")
        case (Inl e)
        with gi have "h_getitem h m ''ui'' = Inl e" by (cases "h_getitem h m ''ui''") auto
        with inn Inr True Inl show ?thesis
          by (simp add: h_extract_items_info_def extract_items_info_def)
      next
        case uj: (Inr uj)
        with gi obtain uv where uv: "h_getitem h m ''ui'' = Inr uv"
          and rep_u: "rep {..<length h} h uj uv"
          by (cases "h_getitem h m ''ui''") auto
        from h_extract_from_ui_returns [OF rep_u] obtain n h' r where
          "h_extract_from_ui n h uv = Some (h', r)"
          "case extract_from_ui uj of Inl e \<Rightarrow> r = Inl e | Inr ds \<Rightarrow> r = Inr (VRef (length h))"
          by blast
        with inn Inr True uj uv show ?thesis
          by (auto simp: h_extract_items_info_def extract_items_info_def)
      qed
    qed
  qed
qed

subsection \<open>The claim about the argument\<close>

text \<open>A manifest with one button, as three objects of a store.\<close>

definition demo_heap :: "'f obj list" where
  "demo_heap =
     [ODict [(''inputs'', VInt 1), (''ui'', VRef 1)],
      OList [VRef 2],
      ODict [(''type'', VStr ''button''), (''shortname'', VStr ''gate'')]]"

definition demo_json :: "'f json" where
  "demo_json =
     JObj [(''inputs'', JInt 1),
           (''ui'', JArr [JObj [(''type'', JStr ''button''), (''shortname'', JStr ''gate'')]])]"

lemma demo_rep: "rep {..<length (demo_heap :: 'f obj list)} demo_heap demo_json (VRef 0)"
  by (simp add: demo_heap_def demo_json_def)

lemma demo_run:
  "h_extract_items_info 3 (demo_heap :: 'f obj list) (VRef 0) =
     Some (demo_heap @
             [OList [VRef 4],
              ODict [(''shortname'', VStr ''gate''), (''type'', VStr ''button''),
                     (''init'', VInt 0), (''min'', VInt 0), (''max'', VInt 1),
                     (''step'', VInt 1)]],
           Inr (VRef 3))"
  by (simp add: demo_heap_def h_extract_items_info_def h_in_def h_getitem_def h_get_def
      h_next_def h_emit_def h_append_def alloc_def h_for_item.simps eval_nat_numeral)

text \<open>
  Claim C8.  Whatever the store and the argument, when a call of \<^verbatim>\<open>extract_items_info\<close>
  returns (a list, or with an exception), every object that the store held before the
  call is unchanged: the call only adds objects.  When the argument is a JSON-decoded
  manifest, that is, its objects represent a JSON value \<open>j\<close>, the call does return for a
  bound large enough; after it the argument still represents \<open>j\<close>; and the call raises
  what the function on values raises on \<open>j\<close>, or returns a new list when that function
  returns one.
\<close>

theorem manifest_unchanged:
  "(\<forall>n h' r. h_extract_items_info n h m = Some (h', r) \<longrightarrow>
       length h \<le> length h' \<and> take (length h) h' = h) \<and>
   (rep {..<length h} h j m \<longrightarrow>
      (\<exists>n h' r. h_extract_items_info n h m = Some (h', r) \<and> rep {..<length h} h' j m \<and>
         (case extract_items_info j of
            Inl e \<Rightarrow> r = Inl e
          | Inr ds \<Rightarrow> r = Inr (VRef (length h)))))"
proof (intro conjI allI impI)
  fix n h' r
  assume "h_extract_items_info n h m = Some (h', r)"
  then have u: "unchanged_except {} h h'" by (rule h_extract_items_info_frame)
  then show "length h \<le> length h'" by (simp add: unchanged_except_def)
  from u show "take (length h) h' = h" by (rule unchanged_take)
next
  assume rep_m: "rep {..<length h} h j m"
  from h_extract_items_info_returns [OF this] obtain n h' r where
    run: "h_extract_items_info n h m = Some (h', r)" and
    res: "case extract_items_info j of Inl e \<Rightarrow> r = Inl e
          | Inr ds \<Rightarrow> r = Inr (VRef (length h))"
    by blast
  from run have "unchanged_except {} h h'" by (rule h_extract_items_info_frame)
  from rep_unchanged [OF this _ _ rep_m] have "rep {..<length h} h' j m" by simp
  with run res show "\<exists>n h' r. h_extract_items_info n h m = Some (h', r) \<and>
      rep {..<length h} h' j m \<and>
      (case extract_items_info j of Inl e \<Rightarrow> r = Inl e | Inr ds \<Rightarrow> r = Inr (VRef (length h)))"
    by blast
qed

text \<open>
  On the store with the one button the call adds the result list and the descriptor, and
  nothing else changes.
\<close>

theorem manifest_unchanged_witness:
  "rep {..<length (demo_heap :: 'f obj list)} demo_heap demo_json (VRef 0) \<and>
   h_extract_items_info 3 (demo_heap :: 'f obj list) (VRef 0) =
     Some (demo_heap @
             [OList [VRef 4],
              ODict [(''shortname'', VStr ''gate''), (''type'', VStr ''button''),
                     (''init'', VInt 0), (''min'', VInt 0), (''max'', VInt 1),
                     (''step'', VInt 1)]],
           Inr (VRef 3)) \<and>
   take (length (demo_heap :: 'f obj list))
     (demo_heap @
        [OList [VRef 4],
         ODict [(''shortname'', VStr ''gate''), (''type'', VStr ''button''),
                (''init'', VInt 0), (''min'', VInt 0), (''max'', VInt 1),
                (''step'', VInt 1)]]) = (demo_heap :: 'f obj list) \<and>
   (\<exists>n h' r. h_extract_items_info n (demo_heap :: 'f obj list) (VRef 0) = Some (h', r) \<and>
      rep {..<length (demo_heap :: 'f obj list)} h' demo_json (VRef 0))"
proof -
  note rep0 = demo_rep [where 'f = 'f]
  note run = demo_run [where 'f = 'f]
  note both = manifest_unchanged [of "demo_heap :: 'f obj list" "VRef 0" demo_json]
  from both [THEN conjunct1, rule_format, OF run]
  have 1: "take (length (demo_heap :: 'f obj list))
     (demo_heap @
        [OList [VRef 4],
         ODict [(''shortname'', VStr ''gate''), (''type'', VStr ''button''),
                (''init'', VInt 0), (''min'', VInt 0), (''max'', VInt 1),
                (''step'', VInt 1)]]) = (demo_heap :: 'f obj list)"
    by blast
  from both [THEN conjunct2] rep0
  have 2: "\<exists>n h' r. h_extract_items_info n (demo_heap :: 'f obj list) (VRef 0) = Some (h', r) \<and>
      rep {..<length (demo_heap :: 'f obj list)} h' demo_json (VRef 0)"
    by blast
  from rep0 run 1 2 show ?thesis by (intro conjI)
qed

end
